theory Spec2Isabelle
  imports Main
begin

section \<open>Strings\<close>

text \<open>
  A JavaScript string is modelled as a list of 8-bit code units (\<open>string\<close>), which covers
  the Latin-1 range of UTF-16. The library functions of \<open>String.prototype\<close> that the
  program calls are written out below for that range.
\<close>

text \<open>\<open>String.prototype.toLowerCase\<close>: A-Z and the Latin-1 capitals move up by 32.\<close>

definition lowerChar :: "char \<Rightarrow> char" where
  "lowerChar c =
     (let n = (of_char c :: nat)
      in if (65 \<le> n \<and> n \<le> 90) \<or> (192 \<le> n \<and> n \<le> 222 \<and> n \<noteq> 215)
         then char_of (n + 32) else c)"

definition toLowerCase :: "string \<Rightarrow> string" where
  "toLowerCase s = map lowerChar s"

text \<open>The class \<open>\s\<close> of regular expressions, which is also what \<open>trim\<close> strips.\<close>

definition isSpace :: "char \<Rightarrow> bool" where
  "isSpace c = ((of_char c :: nat) \<in> {9, 10, 11, 12, 13, 32, 160})"

text \<open>\<open>s.startsWith(p)\<close>.\<close>

fun startsWith :: "string \<Rightarrow> string \<Rightarrow> bool" where
  "startsWith s [] = True"
| "startsWith [] (p # ps) = False"
| "startsWith (c # cs) (p # ps) = (c = p \<and> startsWith cs ps)"

text \<open>\<open>s.includes(p)\<close>: \<open>p\<close> occurs in \<open>s\<close> as a contiguous substring.\<close>

fun includes_str :: "string \<Rightarrow> string \<Rightarrow> bool" where
  "includes_str [] p = (p = [])"
| "includes_str (c # cs) p = (startsWith (c # cs) p \<or> includes_str cs p)"

text \<open>\<open>s.trim()\<close>.\<close>

definition trim :: "string \<Rightarrow> string" where
  "trim s = rev (dropWhile isSpace (rev (dropWhile isSpace s)))"

text \<open>
  \<open>s.split(/\s+/)\<close>: the pieces between maximal runs of white space. A run at the start
  or at the end of \<open>s\<close> leaves an empty piece there, and the empty string gives one empty
  piece. \<open>splitWs cur s\<close> has read the piece \<open>cur\<close> so far.
\<close>

function splitWs :: "string \<Rightarrow> string \<Rightarrow> string list" where
  "splitWs cur [] = [cur]"
| "splitWs cur (c # cs) =
     (if isSpace c then cur # splitWs [] (dropWhile isSpace cs)
      else splitWs (cur @ [c]) cs)"
  by pat_completeness auto
termination
  by (relation "measure (\<lambda>(cur, s). length s)")
     (auto simp: length_dropWhile_le less_Suc_eq_le)

definition split_spaces :: "string \<Rightarrow> string list" where
  "split_spaces s = splitWs [] s"

text \<open>\<open>s.replace(pat, rep)\<close> with a string pattern: the first occurrence only.\<close>

fun replaceFirst :: "string \<Rightarrow> string \<Rightarrow> string \<Rightarrow> string" where
  "replaceFirst [] pat rep = (if pat = [] then rep else [])"
| "replaceFirst (c # cs) pat rep =
     (if startsWith (c # cs) pat then rep @ drop (length pat) (c # cs)
      else c # replaceFirst cs pat rep)"

text \<open>\<open>xs.join(sep)\<close>.\<close>

fun join :: "string \<Rightarrow> string list \<Rightarrow> string" where
  "join sep [] = []"
| "join sep [x] = x"
| "join sep (x # y # ys) = x @ sep @ join sep (y # ys)"

section \<open>Data model\<close>

record Entity =
  name :: string
  entityType :: string
  observations :: "string list"

record Relation =
  rel_from :: string
  rel_to :: string
  relationType :: string

record KnowledgeGraph =
  entities :: "Entity list"
  relations :: "Relation list"

definition entityNames :: "KnowledgeGraph \<Rightarrow> string list" where
  "entityNames g = map name (entities g)"

text \<open>\<open>graph.entities.find(e => e.name === n)\<close>: the first entity of that name.\<close>

definition findEntity :: "Entity list \<Rightarrow> string \<Rightarrow> Entity option" where
  "findEntity es n = List.find (\<lambda>e. name e = n) es"

section \<open>The store: create, add, delete\<close>

text \<open>
  Every operation loads the graph, computes, and saves the graph it holds. The stored
  graph is the argument; a mutating operation returns its result together with the graph
  it saves.
\<close>

definition createEntities ::
  "Entity list \<Rightarrow> KnowledgeGraph \<Rightarrow> Entity list \<times> KnowledgeGraph" where
  "createEntities es g =
     (let newEntities = filter (\<lambda>e. \<not> (\<exists>x \<in> set (entities g). name x = name e)) es
      in (newEntities, g\<lparr>entities := entities g @ newEntities\<rparr>))"

definition sameRelation :: "Relation \<Rightarrow> Relation \<Rightarrow> bool" where
  "sameRelation a b =
     (rel_from a = rel_from b \<and> rel_to a = rel_to b \<and> relationType a = relationType b)"

definition createRelations ::
  "Relation list \<Rightarrow> KnowledgeGraph \<Rightarrow> Relation list \<times> KnowledgeGraph" where
  "createRelations rs g =
     (let newRelations = filter (\<lambda>r. \<not> (\<exists>x \<in> set (relations g). sameRelation x r)) rs
      in (newRelations, g\<lparr>relations := relations g @ newRelations\<rparr>))"

record ObservationRequest =
  entityName :: string
  contents :: "string list"

record ObservationResult =
  resultEntityName :: string
  addedObservations :: "string list"

datatype error = NotFound string

text \<open>
  \<open>entity.observations.push(...newObservations)\<close> on the entity that \<open>find\<close> returned:
  the first entity of that name changes in place.
\<close>

fun pushObservations :: "string \<Rightarrow> string list \<Rightarrow> Entity list \<Rightarrow> Entity list" where
  "pushObservations n new [] = []"
| "pushObservations n new (e # es) =
     (if name e = n then e\<lparr>observations := observations e @ new\<rparr> # es
      else e # pushObservations n new es)"

text \<open>
  The body of \<open>observations.map(o => ...)\<close>: the requests are served in order on the
  loaded graph, and the first request whose entity is missing throws.
\<close>

fun addObservationsLoop ::
  "ObservationRequest list \<Rightarrow> KnowledgeGraph \<Rightarrow> error + (ObservationResult list \<times> KnowledgeGraph)" where
  "addObservationsLoop [] g = Inr ([], g)"
| "addObservationsLoop (req # reqs) g =
     (case findEntity (entities g) (entityName req) of
        None \<Rightarrow> Inl (NotFound (entityName req))
      | Some entity \<Rightarrow>
          (let newObservations = filter (\<lambda>c. c \<notin> set (observations entity)) (contents req);
               g' = g\<lparr>entities := pushObservations (entityName req) newObservations (entities g)\<rparr>
           in case addObservationsLoop reqs g' of
                Inl e \<Rightarrow> Inl e
              | Inr (rs, g'') \<Rightarrow>
                  Inr (\<lparr>resultEntityName = entityName req, addedObservations = newObservations\<rparr> # rs, g'')))"

text \<open>
  \<open>saveGraph\<close> runs after the loop: when the loop throws, nothing is saved and the stored
  graph stays as it was.
\<close>

definition addObservations ::
  "ObservationRequest list \<Rightarrow> KnowledgeGraph \<Rightarrow> (error + ObservationResult list) \<times> KnowledgeGraph" where
  "addObservations reqs g =
     (case addObservationsLoop reqs g of
        Inl e \<Rightarrow> (Inl e, g)
      | Inr (rs, g') \<Rightarrow> (Inr rs, g'))"

definition deleteEntities :: "string list \<Rightarrow> KnowledgeGraph \<Rightarrow> KnowledgeGraph" where
  "deleteEntities names g =
     g\<lparr>entities := filter (\<lambda>e. name e \<notin> set names) (entities g),
       relations := filter (\<lambda>r. rel_from r \<notin> set names \<and> rel_to r \<notin> set names)
                      (relations g)\<rparr>"

record ObservationDeletion =
  delEntityName :: string
  delObservations :: "string list"

fun filterObservations :: "string \<Rightarrow> string list \<Rightarrow> Entity list \<Rightarrow> Entity list" where
  "filterObservations n del [] = []"
| "filterObservations n del (e # es) =
     (if name e = n then e\<lparr>observations := filter (\<lambda>ob. ob \<notin> set del) (observations e)\<rparr> # es
      else e # filterObservations n del es)"

fun deleteObservations :: "ObservationDeletion list \<Rightarrow> KnowledgeGraph \<Rightarrow> KnowledgeGraph" where
  "deleteObservations [] g = g"
| "deleteObservations (d # ds) g =
     deleteObservations ds
       (g\<lparr>entities := filterObservations (delEntityName d) (delObservations d) (entities g)\<rparr>)"

definition deleteRelations :: "Relation list \<Rightarrow> KnowledgeGraph \<Rightarrow> KnowledgeGraph" where
  "deleteRelations rs g =
     g\<lparr>relations := filter (\<lambda>r. \<not> (\<exists>d \<in> set rs. sameRelation r d)) (relations g)\<rparr>"


section \<open>Graph traversal\<close>

text \<open>
  \<open>new Map(graph.entities.map(e => [e.name, e]))\<close>: a later entity of the same name
  replaces an earlier one.
\<close>

definition entityMap :: "KnowledgeGraph \<Rightarrow> string \<rightharpoonup> Entity" where
  "entityMap g = map_of (rev (map (\<lambda>e. (name e, e)) (entities g)))"





text \<open>
  The adjacency list of \<open>findPath\<close>: every entity name has a list, and each relation is
  pushed on the list of its \<open>from\<close> and on the list of its \<open>to\<close>, when that name has a
  list. A name that is no entity has none.
\<close>

definition adjacencyOf :: "string \<Rightarrow> Relation \<Rightarrow> (string \<times> Relation) list" where
  "adjacencyOf n rel =
     (if rel_from rel = n then [(rel_to rel, rel)] else []) @
     (if rel_to rel = n then [(rel_from rel, rel)] else [])"

definition adjacency :: "KnowledgeGraph \<Rightarrow> string \<Rightarrow> (string \<times> Relation) list option" where
  "adjacency g n =
     (if n \<in> set (entityNames g) then Some (concat (map (adjacencyOf n) (relations g)))
      else None)"

record QItem =
  qname :: string
  qpath :: "string list"
  qrelations :: "Relation list"

text \<open>
  \<open>entityMap.get(name)!\<close> gives \<open>undefined\<close> for a name that is no entity, here \<open>None\<close>.
\<close>

record PathResult =
  path :: "Entity option list"
  pathRelations :: "Relation list"
  pathLength :: int

definition endpoints :: "KnowledgeGraph \<Rightarrow> string set" where
  "endpoints g = rel_from ` set (relations g) \<union> rel_to ` set (relations g)"

text \<open>The neighbours of the current item that are pushed on the queue.\<close>

definition pushes :: "KnowledgeGraph \<Rightarrow> string list \<Rightarrow> QItem \<Rightarrow> QItem list" where
  "pushes g visited current =
     map (\<lambda>(neighbor, relation).
            \<lparr>qname = neighbor, qpath = qpath current @ [neighbor],
             qrelations = qrelations current @ [relation]\<rparr>)
         (filter (\<lambda>(neighbor, relation). neighbor \<notin> set visited)
            (case adjacency g (qname current) of None \<Rightarrow> [] | Some l \<Rightarrow> l))"

text \<open>The \<open>while (queue.length > 0)\<close> loop of \<open>findPath\<close>, on the set \<open>visited\<close> and the queue.\<close>

function bfs ::
  "KnowledgeGraph \<Rightarrow> string \<Rightarrow> int \<Rightarrow> string list \<Rightarrow> QItem list \<Rightarrow> PathResult option" where
  "bfs g toEntity maxDepth visited [] = None"
| "bfs g toEntity maxDepth visited (current # queue) =
     (if qname current = toEntity
      then Some \<lparr>path = map (entityMap g) (qpath current),
                 pathRelations = qrelations current,
                 pathLength = int (length (qpath current)) - 1\<rparr>
      else if int (length (qpath current)) > maxDepth then bfs g toEntity maxDepth visited queue
      else if qname current \<in> set visited then bfs g toEntity maxDepth visited queue
      else bfs g toEntity maxDepth (visited @ [qname current])
             (queue @ pushes g (visited @ [qname current]) current))"
  by pat_completeness auto
termination
proof (relation "measures
    [\<lambda>(g, t, m, visited, queue). card ((endpoints g \<union> qname ` set queue) - set visited),
     \<lambda>(g, t, m, visited, queue). length queue]", goal_cases)
  case 1
  show ?case by simp
next
  case (2 g toEntity maxDepth visited current queue)
  have "card ((endpoints g \<union> qname ` set queue) - set visited)
        \<le> card ((endpoints g \<union> qname ` set (current # queue)) - set visited)"
    by (rule card_mono) (auto simp: endpoints_def)
  then show ?case by auto
next
  case (3 g toEntity maxDepth visited current queue)
  have "card ((endpoints g \<union> qname ` set queue) - set visited)
        \<le> card ((endpoints g \<union> qname ` set (current # queue)) - set visited)"
    by (rule card_mono) (auto simp: endpoints_def)
  then show ?case by auto
next
  case (4 g toEntity maxDepth visited current queue)
  let ?v = "visited @ [qname current]"
  have sub: "qname ` set (pushes g ?v current) \<subseteq> endpoints g"
    by (auto simp: pushes_def adjacency_def adjacencyOf_def endpoints_def
             split: option.splits if_splits)
  have fin: "finite ((endpoints g \<union> qname ` set (current # queue)) - set visited)"
    by (simp add: endpoints_def)
  have "(endpoints g \<union> qname ` set (queue @ pushes g ?v current)) - set ?v
        \<subset> (endpoints g \<union> qname ` set (current # queue)) - set visited"
    using sub 4 by auto
  then have "card ((endpoints g \<union> qname ` set (queue @ pushes g ?v current)) - set ?v)
        < card ((endpoints g \<union> qname ` set (current # queue)) - set visited)"
    using fin by (rule psubset_card_mono [rotated])
  then show ?case by simp
qed

definition findPath :: "KnowledgeGraph \<Rightarrow> string \<Rightarrow> string \<Rightarrow> int \<Rightarrow> PathResult option" where
  "findPath g fromEntity toEntity maxDepth =
     (if entityMap g fromEntity = None \<or> entityMap g toEntity = None then None
      else if fromEntity = toEntity
      then Some \<lparr>path = [entityMap g fromEntity], pathRelations = [], pathLength = 0\<rparr>
      else bfs g toEntity maxDepth []
             [\<lparr>qname = fromEntity, qpath = [fromEntity], qrelations = []\<rparr>])"

text \<open>
  One round of \<open>getSubgraph\<close>: the names to add are collected over all relations against
  the set as it was at the start of the round.
\<close>

definition newNeighbors :: "Relation list \<Rightarrow> string set \<Rightarrow> string set" where
  "newNeighbors rels entitySet =
     fold (\<lambda>rel acc.
             (if rel_to rel \<in> entitySet then insert (rel_from rel) else id)
               ((if rel_from rel \<in> entitySet then insert (rel_to rel) else id) acc))
          rels {}"

text \<open>The loop \<open>for (let i = 0; i < depth; i++)\<close>.\<close>

function expand :: "Relation list \<Rightarrow> int \<Rightarrow> int \<Rightarrow> string set \<Rightarrow> string set" where
  "expand rels i depth entitySet =
     (if i < depth then expand rels (i + 1) depth (entitySet \<union> newNeighbors rels entitySet)
      else entitySet)"
  by pat_completeness auto
termination
  by (relation "measure (\<lambda>(rels, i, depth, entitySet). nat (depth - i))") auto

declare expand.simps [simp del]

definition getSubgraph :: "KnowledgeGraph \<Rightarrow> string list \<Rightarrow> int \<Rightarrow> KnowledgeGraph" where
  "getSubgraph g names depth =
     (let entitySet = expand (relations g) 0 depth (set names)
      in \<lparr>entities = filter (\<lambda>e. name e \<in> entitySet) (entities g),
          relations = filter (\<lambda>r. rel_from r \<in> entitySet \<and> rel_to r \<in> entitySet) (relations g)\<rparr>)"

section \<open>Query parser\<close>

definition tokenize :: "string \<Rightarrow> string list" where
  "tokenize text = filter (\<lambda>token. length token > 0) (split_spaces (toLowerCase text))"

record ParsedQuery =
  required :: "string list"
  optional :: "string list"
  excluded :: "string list"
  phrases :: "string list"

definition quote :: char where
  "quote = CHR 0x22"

text \<open>
  The successive matches of \<open>/"([^"]+)"/g\<close> in the query, each as the matched text and
  its group: a quote, at least one character that is no quote, and a quote. The search
  goes on after the end of a match, and one position further where there is none.
\<close>

function phraseMatches :: "string \<Rightarrow> (string \<times> string) list" where
  "phraseMatches [] = []"
| "phraseMatches (c # cs) =
     (let body = takeWhile (\<lambda>x. x \<noteq> quote) cs; rest = dropWhile (\<lambda>x. x \<noteq> quote) cs
      in if c = quote \<and> body \<noteq> [] \<and> rest \<noteq> []
         then (quote # body @ [quote], body) # phraseMatches (tl rest)
         else phraseMatches cs)"
  by pat_completeness auto
termination
  by (relation "measure length")
     (auto simp: less_Suc_eq_le intro!: le_trans [OF diff_le_self length_dropWhile_le])

text \<open>The branch taken for one token in the loop over the tokens.\<close>

definition classify :: "string \<Rightarrow> ParsedQuery \<Rightarrow> ParsedQuery" where
  "classify token result =
     (if startsWith token ''+'' \<and> length token > 1
      then result\<lparr>required := required result @ [toLowerCase (drop 1 token)]\<rparr>
      else if startsWith token ''-'' \<and> length token > 1
      then result\<lparr>excluded := excluded result @ [toLowerCase (drop 1 token)]\<rparr>
      else if \<not> startsWith token ''+'' \<and> \<not> startsWith token ''-''
      then result\<lparr>optional := optional result @ [toLowerCase token]\<rparr>
      else result)"

text \<open>The query with every matched phrase replaced by a blank, one match after the other.\<close>

definition remainingQuery :: "string \<Rightarrow> string" where
  "remainingQuery query =
     fold (\<lambda>m remaining. replaceFirst remaining (fst m) '' '') (phraseMatches query) query"

definition queryTokens :: "string \<Rightarrow> string list" where
  "queryTokens query = filter (\<lambda>t. length t > 0) (split_spaces (remainingQuery query))"

definition parseQuery :: "string \<Rightarrow> ParsedQuery" where
  "parseQuery query =
     fold classify (queryTokens query)
       \<lparr>required = [], optional = [], excluded = [],
        phrases = map (\<lambda>m. toLowerCase (snd m)) (phraseMatches query)\<rparr>"

record FieldQuery =
  fqName :: "ParsedQuery option"
  fqType :: "ParsedQuery option"
  fqObs :: "ParsedQuery option"
  fqAll :: "ParsedQuery option"

datatype Field = FName | FType | FObs

text \<open>\<open>(name|type|obs):\<close> at the start of the string, in any case of letters.\<close>

definition fieldPrefix :: "string \<Rightarrow> (Field \<times> nat) option" where
  "fieldPrefix s =
     (if toLowerCase (take 5 s) = ''name:'' then Some (FName, 5)
      else if toLowerCase (take 5 s) = ''type:'' then Some (FType, 5)
      else if toLowerCase (take 4 s) = ''obs:'' then Some (FObs, 4)
      else None)"

text \<open>
  A match of \<open>/(name|type|obs):(?:"([^"]+)"|(\S+))/gi\<close> at the start of the string: the
  field, the length of the matched text and the value, which is the quoted group when the
  first alternative matches and the run of characters that are no white space otherwise.
\<close>

definition fieldMatchAt :: "string \<Rightarrow> (Field \<times> nat \<times> string) option" where
  "fieldMatchAt s =
     (case fieldPrefix s of
        None \<Rightarrow> None
      | Some (field, k) \<Rightarrow>
          (let r = drop k s;
               body = takeWhile (\<lambda>x. x \<noteq> quote) (drop 1 r);
               rest = dropWhile (\<lambda>x. x \<noteq> quote) (drop 1 r);
               run = takeWhile (\<lambda>x. \<not> isSpace x) r
           in if startsWith r [quote] \<and> body \<noteq> [] \<and> rest \<noteq> []
              then Some (field, k + length body + 2, body)
              else if run \<noteq> [] then Some (field, k + length run, run)
              else None))"

text \<open>The successive matches in the query: the field, the matched text and the value.\<close>

function fieldMatches :: "string \<Rightarrow> (Field \<times> string \<times> string) list" where
  "fieldMatches [] = []"
| "fieldMatches (c # cs) =
     (case fieldMatchAt (c # cs) of
        None \<Rightarrow> fieldMatches cs
      | Some (field, k, v) \<Rightarrow> (field, take k (c # cs), v) # fieldMatches (drop (k - 1) cs))"
  by pat_completeness auto
termination
  by (relation "measure length") auto

definition setField :: "Field \<Rightarrow> ParsedQuery \<Rightarrow> FieldQuery \<Rightarrow> FieldQuery" where
  "setField field q fq =
     (case field of
        FName \<Rightarrow> fq\<lparr>fqName := Some q\<rparr>
      | FType \<Rightarrow> fq\<lparr>fqType := Some q\<rparr>
      | FObs \<Rightarrow> fq\<lparr>fqObs := Some q\<rparr>)"

definition parseFieldQuery :: "string \<Rightarrow> FieldQuery" where
  "parseFieldQuery query =
     (let ms = fieldMatches query;
          fieldQuery = fold (\<lambda>(field, m0, v). setField field (parseQuery v)) ms
                         \<lparr>fqName = None, fqType = None, fqObs = None, fqAll = None\<rparr>;
          remaining = trim (fold (\<lambda>(field, m0, v) remaining. replaceFirst remaining m0 '' '') ms query)
      in if remaining \<noteq> [] then fieldQuery\<lparr>fqAll := Some (parseQuery remaining)\<rparr>
         else fieldQuery)"

section \<open>Matcher\<close>

definition matchesParsedQuery :: "string \<Rightarrow> ParsedQuery \<Rightarrow> bool" where
  "matchesParsedQuery text parsed =
     (let lowerText = toLowerCase text
      in if length (required parsed) > 0 \<and> (\<exists>term \<in> set (required parsed). \<not> includes_str lowerText term)
         then False
         else if (\<exists>term \<in> set (excluded parsed). includes_str lowerText term) then False
         else if (\<exists>phrase \<in> set (phrases parsed). \<not> includes_str lowerText phrase) then False
         else if length (optional parsed) > 0 \<and> length (required parsed) = 0
                 \<and> length (phrases parsed) = 0
                 \<and> \<not> (\<exists>term \<in> set (optional parsed). includes_str lowerText term)
         then False
         else True)"

text \<open>The text of all fields: \<open>`${name} ${entityType} ${observations.join(' ')}`\<close>.\<close>

definition allText :: "Entity \<Rightarrow> string" where
  "allText entity = name entity @ '' '' @ entityType entity @ '' '' @ join '' '' (observations entity)"

definition entityMatchesFieldQuery :: "Entity \<Rightarrow> FieldQuery \<Rightarrow> bool" where
  "entityMatchesFieldQuery entity fieldQuery =
     (if (case fqName fieldQuery of None \<Rightarrow> False
          | Some q \<Rightarrow> \<not> matchesParsedQuery (name entity) q) then False
      else if (case fqType fieldQuery of None \<Rightarrow> False
          | Some q \<Rightarrow> \<not> matchesParsedQuery (entityType entity) q) then False
      else if (case fqObs fieldQuery of None \<Rightarrow> False
          | Some q \<Rightarrow> \<not> matchesParsedQuery (join '' '' (observations entity)) q) then False
      else if (case fqAll fieldQuery of None \<Rightarrow> False
          | Some q \<Rightarrow> \<not> matchesParsedQuery (allText entity) q) then False
      else True)"

text \<open>
  One row of the table of \<open>levenshteinDistance\<close> after its first cell: \<open>prev\<close> is the row
  above from the cell to the upper left on, \<open>left\<close> the cell just filled.
\<close>

fun fillRow :: "char \<Rightarrow> string \<Rightarrow> nat list \<Rightarrow> nat \<Rightarrow> nat list" where
  "fillRow ai (bj # bs) (diag # up # prev) left =
     (let v = min (min (up + 1) (left + 1)) (diag + (if ai = bj then 0 else 1))
      in v # fillRow ai bs (up # prev) v)"
| "fillRow ai bs prev left = []"

text \<open>
  The rows, top to bottom: row 0 is \<open>0 .. b.length\<close>, and row \<open>i\<close> starts with \<open>i\<close>.
\<close>

fun levRows :: "string \<Rightarrow> string \<Rightarrow> nat \<Rightarrow> nat list \<Rightarrow> nat list" where
  "levRows [] b i prev = prev"
| "levRows (ai # as) b i prev = levRows as b (i + 1) ((i + 1) # fillRow ai b prev (i + 1))"

definition levenshteinDistance :: "string \<Rightarrow> string \<Rightarrow> nat" where
  "levenshteinDistance a b = last (levRows a b 0 [0 ..< length b + 1])"

definition absDiff :: "nat \<Rightarrow> nat \<Rightarrow> nat" where
  "absDiff m n = (if m \<le> n then n - m else m - n)"

definition fuzzyMatch :: "string \<Rightarrow> string \<Rightarrow> nat option \<Rightarrow> bool" where
  "fuzzyMatch text query maxDistance =
     (let words = split_spaces (toLowerCase text);
          queryLower = toLowerCase query;
          distance = (case maxDistance of
                        None \<Rightarrow> max 1 (length queryLower div 4)
                      | Some d \<Rightarrow> d)
      in \<exists>word \<in> set words.
           if includes_str word queryLower \<or> includes_str queryLower word then True
           else if absDiff (length word) (length queryLower) \<le> distance
           then levenshteinDistance word queryLower \<le> distance
           else False)"

section \<open>Scorer\<close>

definition scoreEntity :: "Entity \<Rightarrow> string \<Rightarrow> bool \<Rightarrow> nat" where
  "scoreEntity entity query fuzzy =
     (let queryLower = toLowerCase query;
          tokens = tokenize query;
          nameLower = toLowerCase (name entity);
          nameScore =
            (if nameLower = queryLower then 100
             else if includes_str nameLower queryLower then 50
             else if (\<exists>t \<in> set tokens. includes_str nameLower t) then 30
             else if fuzzy \<and> fuzzyMatch (name entity) query None then 15
             else 0);
          typeLower = toLowerCase (entityType entity);
          typeScore =
            (if typeLower = queryLower then 40
             else if (\<exists>t \<in> set tokens. includes_str typeLower t) then 20
             else 0)
      in fold (\<lambda>obs score.
                 (let obsLower = toLowerCase obs
                  in if includes_str obsLower queryLower then score + 15
                     else if (\<exists>t \<in> set tokens. includes_str obsLower t) then score + 10
                     else if fuzzy \<and> fuzzyMatch obs query None then score + 5
                     else score))
              (observations entity) (0 + nameScore + typeScore))"

section \<open>Search\<close>

record SearchOptions =
  includeNeighbors :: bool
  fuzzy :: bool
  limit :: "int option"

record ScoreEntry =
  scoreName :: string
  score :: nat

record SearchResult = KnowledgeGraph +
  scores :: "ScoreEntry list"

record Scored =
  scEntity :: Entity
  scScore :: nat

definition emptyResult :: SearchResult where
  "emptyResult = \<lparr>entities = [], relations = [], scores = []\<rparr>"

text \<open>A \<open>Set\<close> of names keeps the order of insertion: \<open>add\<close> and \<open>new Set(list)\<close>.\<close>

definition setAdd :: "string \<Rightarrow> string list \<Rightarrow> string list" where
  "setAdd x s = (if x \<in> set s then s else s @ [x])"

definition newSet :: "string list \<Rightarrow> string list" where
  "newSet xs = fold setAdd xs []"

text \<open>\<open>query.replace(/(name|type|obs):\S+/gi, '')\<close>: every match is cut out.\<close>

function stripFields :: "string \<Rightarrow> string" where
  "stripFields [] = []"
| "stripFields (c # cs) =
     (case fieldPrefix (c # cs) of
        None \<Rightarrow> c # stripFields cs
      | Some (field, k) \<Rightarrow>
          (let run = takeWhile (\<lambda>x. \<not> isSpace x) (drop k (c # cs))
           in if run \<noteq> [] then stripFields (drop (k + length run - 1) cs)
              else c # stripFields cs))"
  by pat_completeness auto
termination
  by (relation "measure length") auto

text \<open>
  \<open>limit ? scored.slice(0, limit) : scored\<close>: no limit and the limit 0 keep everything, and
  a negative limit counts from the end.
\<close>

definition applyLimit :: "int option \<Rightarrow> 'a list \<Rightarrow> 'a list" where
  "applyLimit lim xs =
     (case lim of
        None \<Rightarrow> xs
      | Some l \<Rightarrow>
          if l = 0 then xs
          else if l > 0 then take (nat l) xs
          else take (length xs - nat (- l)) xs)"

definition searchNodes :: "KnowledgeGraph \<Rightarrow> string \<Rightarrow> SearchOptions \<Rightarrow> SearchResult" where
  "searchNodes graph query options =
     (if trim query = [] then emptyResult
      else
        (let fieldQuery = parseFieldQuery query;
             hasFieldQueries =
               (fqName fieldQuery \<noteq> None \<or> fqType fieldQuery \<noteq> None \<or> fqObs fieldQuery \<noteq> None);
             hasAllQuery =
               (case fqAll fieldQuery of
                  None \<Rightarrow> False
                | Some a \<Rightarrow>
                    length (required a) > 0 \<or> length (optional a) > 0 \<or> length (phrases a) > 0)
         in if \<not> hasFieldQueries \<and> \<not> hasAllQuery then emptyResult
            else
              (let matchedEntities =
                     filter (\<lambda>entity.
                        if \<not> entityMatchesFieldQuery entity fieldQuery
                        then (case fqAll fieldQuery of
                                None \<Rightarrow> False
                              | Some a \<Rightarrow>
                                  if fuzzy options
                                  then (\<exists>token \<in> set (required a @ optional a @ phrases a).
                                          fuzzyMatch (allText entity) token None)
                                  else False)
                        else True) (entities graph);
                   rawQuery = trim (stripFields query);
                   scored =
                     sort_key (\<lambda>s. - int (scScore s))
                       (map (\<lambda>entity.
                               \<lparr>scEntity = entity,
                                scScore = scoreEntity entity
                                            (if rawQuery \<noteq> [] then rawQuery else query)
                                            (fuzzy options)\<rparr>)
                            matchedEntities);
                   limitedScored = applyLimit (limit options) scored;
                   matched = map scEntity limitedScored;
                   matchedEntityNames = newSet (map name matched);
                   neighborNames =
                     fold (\<lambda>rel acc.
                             (if rel_to rel \<in> set matchedEntityNames then setAdd (rel_from rel) else id)
                               ((if rel_from rel \<in> set matchedEntityNames
                                 then setAdd (rel_to rel) else id) acc))
                          (relations graph) [];
                   expanded =
                     (if includeNeighbors options \<and> matchedEntityNames \<noteq> []
                      then fold (\<lambda>n (ents, names).
                                   if n \<notin> set names
                                   then (case findEntity (entities graph) n of
                                           None \<Rightarrow> (ents, names)
                                         | Some neighborEntity \<Rightarrow>
                                             (ents @ [neighborEntity], setAdd n names))
                                   else (ents, names))
                                neighborNames (matched, matchedEntityNames)
                      else (matched, matchedEntityNames))
               in \<lparr>entities = fst expanded,
                   relations = filter (\<lambda>r. rel_from r \<in> set (snd expanded)
                                            \<or> rel_to r \<in> set (snd expanded))
                                 (relations graph),
                   scores = map (\<lambda>s. \<lparr>scoreName = name (scEntity s), score = scScore s\<rparr>)
                              limitedScored\<rparr>)))"

section \<open>Persistence\<close>

text \<open>
  The file holds one JSON text per line. \<open>JSON.stringify\<close> and \<open>JSON.parse\<close> are written
  out for the values the program writes: strings, arrays and objects. A text with white
  space between its tokens, a number, \<open>true\<close>, \<open>false\<close> or \<open>null\<close> is not modelled (the
  program writes none), and \<open>JSON_parse\<close> gives \<open>None\<close> for it as for a text that is no JSON.
\<close>

datatype json = JString string | JArray "json list" | JObject "(string \<times> json) list"

definition hexDigit :: "nat \<Rightarrow> char" where
  "hexDigit n = (if n < 10 then char_of (48 + n) else char_of (87 + n))"

definition backslash :: char where
  "backslash = CHR 0x5C"

definition lineFeed :: char where
  "lineFeed = CHR 0x0A"

text \<open>
  How \<open>JSON.stringify\<close> writes one character of a string: the quote and the backslash
  after a backslash, the control characters as \<open>\b \t \n \f \r\<close> or \<open>\u00xx\<close>.
\<close>

definition escapeChar :: "char \<Rightarrow> string" where
  "escapeChar c =
     (let n = (of_char c :: nat)
      in if c = quote then [backslash, quote]
         else if c = backslash then [backslash, backslash]
         else if n = 8 then [backslash, CHR ''b'']
         else if n = 9 then [backslash, CHR ''t'']
         else if n = 10 then [backslash, CHR ''n'']
         else if n = 12 then [backslash, CHR ''f'']
         else if n = 13 then [backslash, CHR ''r'']
         else if n < 32
         then [backslash, CHR ''u'', CHR ''0'', CHR ''0'', hexDigit (n div 16), hexDigit (n mod 16)]
         else [c])"

definition quoteString :: "string \<Rightarrow> string" where
  "quoteString s = quote # concat (map escapeChar s) @ [quote]"

fun JSON_stringify :: "json \<Rightarrow> string" where
  "JSON_stringify (JString s) = quoteString s"
| "JSON_stringify (JArray vs) = ''['' @ join '','' (map JSON_stringify vs) @ '']''"
| "JSON_stringify (JObject ms) =
     ''{'' @ join '','' (map (\<lambda>m. quoteString (fst m) @ '':'' @ JSON_stringify (snd m)) ms) @ ''}''"

definition unhex :: "char \<Rightarrow> nat option" where
  "unhex c =
     (let n = (of_char c :: nat)
      in if 48 \<le> n \<and> n \<le> 57 then Some (n - 48)
         else if 97 \<le> n \<and> n \<le> 102 then Some (n - 87)
         else if 65 \<le> n \<and> n \<le> 70 then Some (n - 55)
         else None)"

text \<open>The character that stands after a backslash, but for \<open>u\<close>.\<close>

definition unescape :: "char \<Rightarrow> char option" where
  "unescape e =
     (if e = quote then Some quote
      else if e = backslash then Some backslash
      else if e = CHR ''/'' then Some (CHR ''/'')
      else if e = CHR ''b'' then Some (CHR 0x08)
      else if e = CHR ''t'' then Some (CHR 0x09)
      else if e = CHR ''n'' then Some (CHR 0x0A)
      else if e = CHR ''f'' then Some (CHR 0x0C)
      else if e = CHR ''r'' then Some (CHR 0x0D)
      else None)"

text \<open>
  The characters of a string up to its closing quote, and the text after it. A code unit
  above 255 is outside the strings modelled here.
\<close>

fun parseChars :: "string \<Rightarrow> string \<Rightarrow> (string \<times> string) option" where
  "parseChars acc [] = None"
| "parseChars acc (c # cs) =
     (if c = quote then Some (acc, cs)
      else if c = backslash
      then (case cs of
              [] \<Rightarrow> None
            | e # cs1 \<Rightarrow>
                if e = CHR ''u''
                then (case cs1 of
                        h1 # h2 # h3 # h4 # cs2 \<Rightarrow>
                          (case (unhex h1, unhex h2, unhex h3, unhex h4) of
                             (Some d1, Some d2, Some d3, Some d4) \<Rightarrow>
                               if d1 = 0 \<and> d2 = 0
                               then parseChars (acc @ [char_of (16 * d3 + d4)]) cs2
                               else None
                           | _ \<Rightarrow> None)
                      | _ \<Rightarrow> None)
                else (case unescape e of
                        None \<Rightarrow> None
                      | Some x \<Rightarrow> parseChars (acc @ [x]) cs1))
      else if (of_char c :: nat) < 32 then None
      else parseChars (acc @ [c]) cs)"

text \<open>
  A value at the start of the text and the text after it; the elements of an array after
  its opening bracket; the members of an object after its opening brace. The first
  argument bounds the number of calls.
\<close>

fun parseValue :: "nat \<Rightarrow> string \<Rightarrow> (json \<times> string) option"
  and parseElems :: "nat \<Rightarrow> string \<Rightarrow> (json list \<times> string) option"
  and parseMembers :: "nat \<Rightarrow> string \<Rightarrow> ((string \<times> json) list \<times> string) option" where
  "parseValue 0 s = None"
| "parseValue (Suc n) [] = None"
| "parseValue (Suc n) (c # s) =
     (if c = quote
      then (case parseChars [] s of None \<Rightarrow> None | Some (x, r) \<Rightarrow> Some (JString x, r))
      else if c = CHR ''[''
      then (case s of
              [] \<Rightarrow> None
            | d # s1 \<Rightarrow>
                if d = CHR '']'' then Some (JArray [], s1)
                else (case parseElems n s of None \<Rightarrow> None | Some (vs, r) \<Rightarrow> Some (JArray vs, r)))
      else if c = CHR ''{''
      then (case s of
              [] \<Rightarrow> None
            | d # s1 \<Rightarrow>
                if d = CHR ''}'' then Some (JObject [], s1)
                else (case parseMembers n s of None \<Rightarrow> None | Some (ms, r) \<Rightarrow> Some (JObject ms, r)))
      else None)"
| "parseElems 0 s = None"
| "parseElems (Suc n) s =
     (case parseValue n s of
        None \<Rightarrow> None
      | Some (v, r) \<Rightarrow>
          (case r of
             [] \<Rightarrow> None
           | d # r1 \<Rightarrow>
               if d = CHR '',''
               then (case parseElems n r1 of None \<Rightarrow> None | Some (vs, r2) \<Rightarrow> Some (v # vs, r2))
               else if d = CHR '']'' then Some ([v], r1)
               else None))"
| "parseMembers 0 s = None"
| "parseMembers (Suc n) s =
     (case s of
        [] \<Rightarrow> None
      | c # s1 \<Rightarrow>
          if c = quote
          then (case parseChars [] s1 of
                  None \<Rightarrow> None
                | Some (k, r) \<Rightarrow>
                    (case r of
                       [] \<Rightarrow> None
                     | d # r1 \<Rightarrow>
                         if d = CHR '':''
                         then (case parseValue n r1 of
                                 None \<Rightarrow> None
                               | Some (v, r2) \<Rightarrow>
                                   (case r2 of
                                      [] \<Rightarrow> None
                                    | e # r3 \<Rightarrow>
                                        if e = CHR '',''
                                        then (case parseMembers n r3 of
                                                None \<Rightarrow> None
                                              | Some (ms, r4) \<Rightarrow> Some ((k, v) # ms, r4))
                                        else if e = CHR ''}'' then Some ([(k, v)], r3)
                                        else None))
                         else None))
          else None)"

text \<open>\<open>JSON.parse\<close>: one value and nothing after it; \<open>None\<close> is the SyntaxError.\<close>

definition JSON_parse :: "string \<Rightarrow> json option" where
  "JSON_parse s =
     (case parseValue (Suc (length s)) s of
        Some (v, []) \<Rightarrow> Some v
      | _ \<Rightarrow> None)"

text \<open>\<open>item.key\<close>: of members with the same key, \<open>JSON.parse\<close> keeps the last.\<close>

definition property :: "json \<Rightarrow> string \<Rightarrow> json option" where
  "property item key =
     (case item of JObject ms \<Rightarrow> map_of (rev ms) key | _ \<Rightarrow> None)"

text \<open>The objects that \<open>saveGraph\<close> hands to \<open>JSON.stringify\<close>.\<close>

definition entityJson :: "Entity \<Rightarrow> json" where
  "entityJson e =
     JObject [(''type'', JString ''entity''), (''name'', JString (name e)),
              (''entityType'', JString (entityType e)),
              (''observations'', JArray (map JString (observations e)))]"

definition relationJson :: "Relation \<Rightarrow> json" where
  "relationJson r =
     JObject [(''type'', JString ''relation''), (''from'', JString (rel_from r)),
              (''to'', JString (rel_to r)), (''relationType'', JString (relationType r))]"

definition saveGraph :: "KnowledgeGraph \<Rightarrow> string" where
  "saveGraph graph =
     join [lineFeed]
       (map (\<lambda>e. JSON_stringify (entityJson e)) (entities graph) @
        map (\<lambda>r. JSON_stringify (relationJson r)) (relations graph))"

text \<open>\<open>data.split("\n")\<close>.\<close>

fun splitOn :: "char \<Rightarrow> string \<Rightarrow> string list" where
  "splitOn sep [] = [[]]"
| "splitOn sep (c # cs) =
     (if c = sep then [] # splitOn sep cs
      else (case splitOn sep cs of [] \<Rightarrow> [[c]] | x # xs \<Rightarrow> (c # x) # xs))"

text \<open>
  The cast of a parsed item to an entity or a relation is unchecked in the program. The
  graph of this model is typed: an item that lacks a field of its interface, or holds
  another kind of value there, ends the load with \<open>IllTyped\<close>.
\<close>

datatype loadError = SyntaxError | IllTyped

definition stringOf :: "json option \<Rightarrow> string option" where
  "stringOf v = (case v of Some (JString s) \<Rightarrow> Some s | _ \<Rightarrow> None)"

fun stringsOf :: "json list \<Rightarrow> string list option" where
  "stringsOf [] = Some []"
| "stringsOf (v # vs) =
     (case (v, stringsOf vs) of (JString s, Some ss) \<Rightarrow> Some (s # ss) | _ \<Rightarrow> None)"

definition asEntity :: "json \<Rightarrow> Entity option" where
  "asEntity item =
     (case (stringOf (property item ''name''), stringOf (property item ''entityType''),
            property item ''observations'') of
        (Some n, Some t, Some (JArray vs)) \<Rightarrow>
          (case stringsOf vs of
             None \<Rightarrow> None
           | Some obs \<Rightarrow> Some \<lparr>name = n, entityType = t, observations = obs\<rparr>)
      | _ \<Rightarrow> None)"

definition asRelation :: "json \<Rightarrow> Relation option" where
  "asRelation item =
     (case (stringOf (property item ''from''), stringOf (property item ''to''),
            stringOf (property item ''relationType'')) of
        (Some f, Some t, Some rt) \<Rightarrow> Some \<lparr>rel_from = f, rel_to = t, relationType = rt\<rparr>
      | _ \<Rightarrow> None)"

text \<open>The step of \<open>lines.reduce\<close> for one line.\<close>

definition loadLine :: "string \<Rightarrow> KnowledgeGraph \<Rightarrow> loadError + KnowledgeGraph" where
  "loadLine line graph =
     (case JSON_parse line of
        None \<Rightarrow> Inl SyntaxError
      | Some item \<Rightarrow>
          if property item ''type'' = Some (JString ''entity'')
          then (case asEntity item of
                  None \<Rightarrow> Inl IllTyped
                | Some entity \<Rightarrow> Inr (graph\<lparr>entities := entities graph @ [entity]\<rparr>))
          else if property item ''type'' = Some (JString ''relation'')
          then (case asRelation item of
                  None \<Rightarrow> Inl IllTyped
                | Some relation \<Rightarrow> Inr (graph\<lparr>relations := relations graph @ [relation]\<rparr>))
          else Inr graph)"

fun loadLines :: "string list \<Rightarrow> KnowledgeGraph \<Rightarrow> loadError + KnowledgeGraph" where
  "loadLines [] graph = Inr graph"
| "loadLines (line # lines) graph =
     (case loadLine line graph of Inl e \<Rightarrow> Inl e | Inr graph' \<Rightarrow> loadLines lines graph')"

text \<open>The file is \<open>None\<close> when it does not exist, which gives the empty graph.\<close>

definition loadGraph :: "string option \<Rightarrow> loadError + KnowledgeGraph" where
  "loadGraph file =
     (case file of
        None \<Rightarrow> Inr \<lparr>entities = [], relations = []\<rparr>
      | Some data \<Rightarrow>
          loadLines (filter (\<lambda>line. trim line \<noteq> []) (splitOn lineFeed data))
            \<lparr>entities = [], relations = []\<rparr>)"

section \<open>Example graphs\<close>

definition entityNamed :: "string \<Rightarrow> Entity" where
  "entityNamed n = \<lparr>name = n, entityType = ''Module'', observations = []\<rparr>"

definition relationBetween :: "string \<Rightarrow> string \<Rightarrow> Relation" where
  "relationBetween a b = \<lparr>rel_from = a, rel_to = b, relationType = ''imports''\<rparr>"

text \<open>Two entities and two relations that meet in a name that is no entity.\<close>

definition danglingGraph :: KnowledgeGraph where
  "danglingGraph =
     \<lparr>entities = [entityNamed ''A'', entityNamed ''B''],
      relations = [relationBetween ''A'' ''X'', relationBetween ''X'' ''B'']\<rparr>"

text \<open>The chain A - B - C - D and the isolated entity Z.\<close>

definition chainGraph :: KnowledgeGraph where
  "chainGraph =
     \<lparr>entities = [entityNamed ''A'', entityNamed ''B'', entityNamed ''C'', entityNamed ''D'',
                  entityNamed ''Z''],
      relations = [relationBetween ''A'' ''B'', relationBetween ''B'' ''C'',
                   relationBetween ''C'' ''D'']\<rparr>"

definition emptyGraph :: KnowledgeGraph where
  "emptyGraph = \<lparr>entities = [], relations = []\<rparr>"

section \<open>Undirected walks\<close>

text \<open>Two names are linked when a relation joins them, in either direction.\<close>

definition linked :: "Relation list \<Rightarrow> string \<Rightarrow> string \<Rightarrow> bool" where
  "linked rels a b =
     (\<exists>r \<in> set rels. (rel_from r = a \<and> rel_to r = b) \<or> (rel_from r = b \<and> rel_to r = a))"

text \<open>
  A walk is a non-empty list of names, each linked to the next; it has one hop less than
  names. Its names need not be entities.
\<close>

fun walk :: "Relation list \<Rightarrow> string list \<Rightarrow> bool" where
  "walk rels [] = False"
| "walk rels [a] = True"
| "walk rels (a # b # w) = (linked rels a b \<and> walk rels (b # w))"

section \<open>Case-insensitive containment\<close>

text \<open>\<open>term\<close> occurs in \<open>text\<close> when the case of letters is ignored.\<close>

definition containsCI :: "string \<Rightarrow> string \<Rightarrow> bool" where
  "containsCI text term = includes_str (toLowerCase text) (toLowerCase term)"

text \<open>Every term of a parsed query is in lower case, as \<open>parseQuery\<close> stores it.\<close>

definition lowerCased :: "ParsedQuery \<Rightarrow> bool" where
  "lowerCased p =
     (\<forall>t \<in> set (required p @ optional p @ excluded p @ phrases p). toLowerCase t = t)"

section \<open>Walks through entities and the invariant of the search\<close>

text \<open>A walk all of whose names are entities.\<close>

definition entityWalk :: "KnowledgeGraph \<Rightarrow> string list \<Rightarrow> bool" where
  "entityWalk g w = (walk (relations g) w \<and> set w \<subseteq> set (entityNames g))"

text \<open>
  An item of the queue holds a walk from the start to its name, through entities up to its
  last name, with one relation per hop.
\<close>

definition itemOk :: "KnowledgeGraph \<Rightarrow> string \<Rightarrow> QItem \<Rightarrow> bool" where
  "itemOk g a q =
     (qpath q \<noteq> [] \<and> hd (qpath q) = a \<and> last (qpath q) = qname q
      \<and> walk (relations g) (qpath q)
      \<and> set (butlast (qpath q)) \<subseteq> set (entityNames g)
      \<and> length (qrelations q) + 1 = length (qpath q))"

text \<open>
  The queue is ahead on the walk \<open>w\<close>: some item stands on a name of \<open>w\<close>, with a path no
  longer than the walk up to there, and no name of \<open>w\<close> from there on is visited.
\<close>

definition ahead :: "string list \<Rightarrow> QItem list \<Rightarrow> string list \<Rightarrow> bool" where
  "ahead visited queue w =
     (\<exists>q \<in> set queue. \<exists>pre suf.
        w = pre @ suf \<and> suf \<noteq> [] \<and> hd suf = qname q
        \<and> length (qpath q) \<le> length pre + 1 \<and> set suf \<inter> set visited = {})"

definition bfsInv ::
  "KnowledgeGraph \<Rightarrow> string \<Rightarrow> string \<Rightarrow> int \<Rightarrow> string list \<Rightarrow> QItem list \<Rightarrow> bool" where
  "bfsInv g a b m visited queue =
     ((\<forall>q \<in> set queue. itemOk g a q \<and> (int (length (qpath q)) - 1 \<le> m \<or> qpath q = [a]))
      \<and> sorted_wrt (\<lambda>x y. length (qpath x) \<le> length (qpath y)) queue
      \<and> (\<forall>q \<in> set queue. length (qpath q) \<le> length (qpath (hd queue)) + 1)
      \<and> (\<forall>w. entityWalk g w \<and> hd w = a \<and> last w = b \<and> int (length w) - 1 \<le> m
             \<longrightarrow> ahead visited queue w))"

section \<open>The number of calls that parsing a value takes\<close>

fun cost :: "json \<Rightarrow> nat" where
  "cost (JString s) = 1"
| "cost (JArray vs) = 1 + sum_list (map (\<lambda>v. 1 + cost v) vs)"
| "cost (JObject ms) = 1 + sum_list (map (\<lambda>m. 1 + cost (snd m)) ms)"

section \<open>The store: names and observations\<close>


lemma entityMap_None: "entityMap g n = None \<longleftrightarrow> n \<notin> set (entityNames g)"
  by (simp add: entityMap_def entityNames_def map_of_eq_None_iff image_image)

lemma names_pushObservations: "map name (pushObservations n new es) = map name es"
  by (induction es) auto

text \<open>
  A batch of entities with distinct names keeps the stored names distinct. The removal of
  entities keeps them distinct too, and the other operations leave the names as they are.
\<close>

lemma createEntities_distinct:
  assumes "distinct (entityNames g)" and "distinct (map name es)"
  shows "distinct (entityNames (snd (createEntities es g)))"
proof -
  have "distinct (map name (filter (\<lambda>e. \<not> (\<exists>x \<in> set (entities g). name x = name e)) es))"
    using assms(2) by (rule distinct_map_filter)
  then show ?thesis
    using assms(1) by (auto simp: createEntities_def entityNames_def Let_def)
qed

lemma createRelations_names: "entityNames (snd (createRelations rs g)) = entityNames g"
  by (simp add: createRelations_def entityNames_def Let_def)

lemma deleteEntities_distinct:
  "distinct (entityNames g) \<Longrightarrow> distinct (entityNames (deleteEntities ns g))"
  by (simp add: deleteEntities_def entityNames_def distinct_map_filter)

lemma addObservationsLoop_names:
  "addObservationsLoop reqs g = Inr (rs, g') \<Longrightarrow> entityNames g' = entityNames g"
proof (induction reqs arbitrary: g rs)
  case Nil
  then show ?case by simp
next
  case (Cons r reqs)
  from Cons.prems obtain entity where e: "findEntity (entities g) (entityName r) = Some entity"
    by (cases "findEntity (entities g) (entityName r)") auto
  let ?g = "g\<lparr>entities := pushObservations (entityName r)
               (filter (\<lambda>c. c \<notin> set (observations entity)) (contents r)) (entities g)\<rparr>"
  from Cons.prems e obtain rs' where "addObservationsLoop reqs ?g = Inr (rs', g')"
    by (auto simp: Let_def split: sum.splits prod.splits)
  from Cons.IH [OF this] show ?case
    by (simp add: entityNames_def names_pushObservations)
qed

lemma addObservations_names: "entityNames (snd (addObservations reqs g)) = entityNames g"
  using addObservationsLoop_names [of reqs g]
  by (auto simp: addObservations_def split: sum.splits prod.splits)

lemma names_filterObservations: "map name (filterObservations n del es) = map name es"
  by (induction es) auto

lemma deleteObservations_names: "entityNames (deleteObservations ds g) = entityNames g"
  by (induction ds arbitrary: g) (simp_all add: entityNames_def names_filterObservations)

lemma deleteRelations_names: "entityNames (deleteRelations rs g) = entityNames g"
  by (simp add: deleteRelations_def entityNames_def)

text \<open>
  C2. Stored entity names stay distinct under every mutation, also when one
  \<open>createEntities\<close> batch holds the same name twice. The filter of \<open>createEntities\<close>
  compares a new entity with the stored ones only: on the empty graph, a batch of two
  entities named A stores both.
\<close>

theorem createEntities_same_name_twice:
  "distinct (entityNames emptyGraph) \<and>
   entityNames (snd (createEntities
       [\<lparr>name = ''A'', entityType = ''person'', observations = []\<rparr>,
        \<lparr>name = ''A'', entityType = ''robot'', observations = []\<rparr>] emptyGraph))
     = [''A'', ''A'']"
  by (simp add: createEntities_def entityNames_def emptyGraph_def Let_def)

text \<open>
  C5. \<open>addObservations\<close> leaves no string twice in an entity's observations, also when one
  request lists the same string twice. The filter compares each string with the stored
  observations only: the request \<open>[x, x]\<close> on an entity without observations appends both,
  and reports both as added.
\<close>

theorem addObservations_same_content_twice:
  "addObservations [\<lparr>entityName = ''Alice'', contents = [''x'', ''x'']\<rparr>]
     \<lparr>entities = [\<lparr>name = ''Alice'', entityType = ''person'', observations = []\<rparr>],
      relations = []\<rparr>
   = (Inr [\<lparr>resultEntityName = ''Alice'', addedObservations = [''x'', ''x'']\<rparr>],
      \<lparr>entities = [\<lparr>name = ''Alice'', entityType = ''person'', observations = [''x'', ''x'']\<rparr>],
       relations = []\<rparr>)"
  by (simp add: addObservations_def findEntity_def Let_def)

section \<open>Names that are no entity\<close>













lemma newNeighbors_subset: "newNeighbors rels s \<subseteq> rel_from ` set rels \<union> rel_to ` set rels"
proof -
  have "fold (\<lambda>rel acc.
             (if rel_to rel \<in> s then insert (rel_from rel) else id)
               ((if rel_from rel \<in> s then insert (rel_to rel) else id) acc)) rels acc
        \<subseteq> acc \<union> (rel_from ` set rels \<union> rel_to ` set rels)" for acc
    by (induction rels arbitrary: acc) (auto split: if_splits)
  from this [of "{}"] show ?thesis by (simp add: newNeighbors_def)
qed








section \<open>Subgraphs\<close>

lemma newNeighbors_linked: "newNeighbors rels s = {n. \<exists>a \<in> s. linked rels a n}"
proof -
  have "fold (\<lambda>rel acc.
             (if rel_to rel \<in> s then insert (rel_from rel) else id)
               ((if rel_from rel \<in> s then insert (rel_to rel) else id) acc)) rs acc
        = acc \<union> {n. \<exists>a \<in> s. linked rs a n}" for rs acc
    by (induction rs arbitrary: acc) (auto simp: linked_def)
  from this [of rels "{}"] show ?thesis by (simp add: newNeighbors_def)
qed

lemma walk_hd_last: "walk rels w \<Longrightarrow> w \<noteq> []"
  by (cases w) auto

text \<open>The names within \<open>k\<close> hops of a set of names.\<close>

lemma within_Suc:
  "(\<exists>w. walk rels w \<and> hd w \<in> s \<and> last w = n \<and> length w \<le> Suc (Suc k))
     \<longleftrightarrow> (\<exists>w. walk rels w \<and> hd w \<in> s \<union> {n. \<exists>a \<in> s. linked rels a n} \<and> last w = n
              \<and> length w \<le> Suc k)"
  (is "?L \<longleftrightarrow> ?R")
proof
  assume ?L
  then obtain w where w: "walk rels w" "hd w \<in> s" "last w = n" "length w \<le> Suc (Suc k)"
    by blast
  show ?R
  proof (cases w)
    case Nil
    with w show ?thesis by simp
  next
    case (Cons a w')
    show ?thesis
    proof (cases w')
      case Nil
      with Cons w have "walk rels [n]" "hd [n] \<in> s" by auto
      then show ?thesis by (intro exI [of _ "[n]"]) auto
    next
      case (Cons b w'')
      with \<open>w = a # w'\<close> w have "walk rels (b # w'')" "linked rels a b" "a \<in> s"
        "last (b # w'') = n" "length (b # w'') \<le> Suc k"
        by auto
      then show ?thesis by (intro exI [of _ "b # w''"]) auto
    qed
  qed
next
  assume ?R
  then obtain w where w: "walk rels w" "hd w \<in> s \<union> {n. \<exists>a \<in> s. linked rels a n}"
    "last w = n" "length w \<le> Suc k"
    by blast
  from w(1) obtain b w' where bw: "w = b # w'" by (cases w) auto
  show ?L
  proof (cases "b \<in> s")
    case True
    with w bw show ?thesis by (intro exI [of _ w]) auto
  next
    case False
    with w bw obtain a where "a \<in> s" "linked rels a b" by auto
    with w bw show ?thesis by (intro exI [of _ "a # w"]) auto
  qed
qed

lemma expand_walks:
  "n \<in> expand rels i depth s
     \<longleftrightarrow> (\<exists>w. walk rels w \<and> hd w \<in> s \<and> last w = n \<and> length w \<le> Suc (nat (depth - i)))"
proof (induction rels i depth s rule: expand.induct)
  case (1 rels i depth s)
  show ?case
  proof (cases "i < depth")
    case True
    then obtain k where k: "nat (depth - i) = Suc k" "nat (depth - (i + 1)) = k"
      by (cases "nat (depth - i)") auto
    have "n \<in> expand rels i depth s \<longleftrightarrow> n \<in> expand rels (i + 1) depth (s \<union> newNeighbors rels s)"
      using True by (subst expand.simps) simp
    also have "\<dots> \<longleftrightarrow> (\<exists>w. walk rels w \<and> hd w \<in> s \<union> {n. \<exists>a \<in> s. linked rels a n}
                \<and> last w = n \<and> length w \<le> Suc k)"
      using "1.IH" [OF True] by (simp add: k newNeighbors_linked)
    also have "\<dots> \<longleftrightarrow> (\<exists>w. walk rels w \<and> hd w \<in> s \<and> last w = n \<and> length w \<le> Suc (Suc k))"
      by (rule within_Suc [symmetric])
    finally show ?thesis by (simp add: k)
  next
    case False
    then have e: "expand rels i depth s = s"
      by (subst expand.simps) simp
    from False have z: "nat (depth - i) = 0"
      by simp
    have "(\<exists>w. walk rels w \<and> hd w \<in> s \<and> last w = n \<and> length w \<le> Suc 0) \<longleftrightarrow> n \<in> s"
    proof
      assume "\<exists>w. walk rels w \<and> hd w \<in> s \<and> last w = n \<and> length w \<le> Suc 0"
      then obtain w where "walk rels w" "hd w \<in> s" "last w = n" "length w \<le> Suc 0" by blast
      then show "n \<in> s" by (cases w) auto
    next
      assume "n \<in> s"
      then show "\<exists>w. walk rels w \<and> hd w \<in> s \<and> last w = n \<and> length w \<le> Suc 0"
        by (intro exI [of _ "[n]"]) auto
    qed
    then show ?thesis by (simp add: e z)
  qed
qed

text \<open>
  C3, as stated: at depth 0 \<open>getSubgraph\<close> returns the seed entities and no relation at
  all, even between two seeds. The relations it returns are those with both ends in the
  final set, at every depth: with the seeds A and B of the chain graph and depth 0, the
  relation from A to B is returned.
\<close>

theorem getSubgraph_depth0_counterexample:
  "relations (getSubgraph chainGraph [''A'', ''B''] 0) = [relationBetween ''A'' ''B'']"
  by (simp add: getSubgraph_def chainGraph_def expand.simps relationBetween_def Let_def)

text \<open>
  C3, amended: at depth 0 (or below) \<open>getSubgraph\<close> returns exactly the entities named by a
  seed and exactly the relations with both ends among the seeds; at every depth \<open>k \<ge> 0\<close>,
  the entities returned are exactly the stored entities within \<open>k\<close> undirected hops of a
  seed, along relations (through names that need not be entities).
\<close>

theorem getSubgraph_depth:
  "(depth \<le> 0 \<longrightarrow>
      getSubgraph g seeds depth =
        \<lparr>entities = filter (\<lambda>e. name e \<in> set seeds) (entities g),
         relations = filter (\<lambda>r. rel_from r \<in> set seeds \<and> rel_to r \<in> set seeds) (relations g)\<rparr>)
   \<and> (0 \<le> depth \<longrightarrow>
        set (entities (getSubgraph g seeds depth)) =
          {e \<in> set (entities g).
             \<exists>w. walk (relations g) w \<and> hd w \<in> set seeds \<and> last w = name e
                 \<and> int (length w) - 1 \<le> depth})"
proof (intro conjI impI)
  assume "depth \<le> 0"
  then have "expand (relations g) 0 depth (set seeds) = set seeds"
    by (subst expand.simps) simp
  then show "getSubgraph g seeds depth =
        \<lparr>entities = filter (\<lambda>e. name e \<in> set seeds) (entities g),
         relations = filter (\<lambda>r. rel_from r \<in> set seeds \<and> rel_to r \<in> set seeds) (relations g)\<rparr>"
    by (simp add: getSubgraph_def Let_def)
next
  assume d: "0 \<le> depth"
  have "int (length w) - 1 \<le> depth \<longleftrightarrow> length w \<le> Suc (nat (depth - 0))" for w :: "string list"
    using d by auto
  then show "set (entities (getSubgraph g seeds depth)) =
          {e \<in> set (entities g).
             \<exists>w. walk (relations g) w \<and> hd w \<in> set seeds \<and> last w = name e
                 \<and> int (length w) - 1 \<le> depth}"
    by (simp add: getSubgraph_def expand_walks Let_def)
qed

theorem getSubgraph_depth_witness:
  "getSubgraph chainGraph [''A'', ''D''] 0 =
     \<lparr>entities = [entityNamed ''A'', entityNamed ''D''], relations = []\<rparr>
   \<and> map name (entities (getSubgraph chainGraph [''B''] 1)) = [''A'', ''B'', ''C'']
   \<and> set (entities (getSubgraph chainGraph [''B''] 1)) =
       {e \<in> set (entities chainGraph).
          \<exists>w. walk (relations chainGraph) w \<and> hd w \<in> set [''B''] \<and> last w = name e
              \<and> int (length w) - 1 \<le> 1}"
  using getSubgraph_depth [of 0 chainGraph "[''A'', ''D'']"]
    getSubgraph_depth [of 1 chainGraph "[''B'']"]
  by (simp add: chainGraph_def entityNamed_def relationBetween_def getSubgraph_def
        expand.simps newNeighbors_def Let_def)


section \<open>Scores\<close>

text \<open>
  C4, as stated: an entity whose name equals the query scores at least as much as one whose
  name only contains it. The score also counts the type and every observation: for the
  query \<open>a\<close>, the entity named \<open>a\<close> scores 100, and the entity named \<open>ab\<close> of type \<open>a\<close> with
  the observation \<open>a\<close> scores 50 + 40 + 15.
\<close>

theorem scoreEntity_monotonicity_counterexample:
  "toLowerCase (name \<lparr>name = ''a'', entityType = ''x'', observations = []\<rparr>) = toLowerCase ''a''
   \<and> includes_str (toLowerCase (name \<lparr>name = ''ab'', entityType = ''a'', observations = [''a'']\<rparr>))
        (toLowerCase ''a'')
   \<and> toLowerCase (name \<lparr>name = ''ab'', entityType = ''a'', observations = [''a'']\<rparr>)
        \<noteq> toLowerCase ''a''
   \<and> scoreEntity \<lparr>name = ''a'', entityType = ''x'', observations = []\<rparr> ''a'' False = 100
   \<and> scoreEntity \<lparr>name = ''ab'', entityType = ''a'', observations = [''a'']\<rparr> ''a'' False = 105"
  by code_simp

text \<open>
  C4, amended: of two entities with the same type and the same observations, the one whose
  name equals the query (case ignored) scores at least as much as the one whose name
  contains the query without being equal to it; it scores 50 more.
\<close>

theorem scoreEntity_exact_name:
  assumes "toLowerCase (name e1) = toLowerCase q"
    and "includes_str (toLowerCase (name e2)) (toLowerCase q)"
    and "toLowerCase (name e2) \<noteq> toLowerCase q"
    and "entityType e1 = entityType e2"
    and "observations e1 = observations e2"
  shows "scoreEntity e2 q fz \<le> scoreEntity e1 q fz
         \<and> scoreEntity e1 q fz = scoreEntity e2 q fz + 50"
proof -
  define f where "f = (\<lambda>obs sc.
     (let obsLower = toLowerCase obs
      in if includes_str obsLower (toLowerCase q) then sc + 15
         else if (\<exists>t \<in> set (tokenize q). includes_str obsLower t) then sc + 10
         else if fz \<and> fuzzyMatch obs q None then sc + 5
         else (sc :: nat)))"
  define t where "t = (if toLowerCase (entityType e2) = toLowerCase q then 40
             else if (\<exists>t \<in> set (tokenize q). includes_str (toLowerCase (entityType e2)) t) then 20
             else (0 :: nat))"
  have step: "f x (m + k) = f x m + k" for x m k
    by (simp add: f_def Let_def)
  have shift: "fold f xs (m + k) = fold f xs m + k" for xs k m
    by (induction xs arbitrary: m) (simp_all add: step)
  have s1: "scoreEntity e1 q fz = fold f (observations e2) (50 + t + 50)"
    using assms(1,4,5) by (simp add: scoreEntity_def f_def t_def Let_def)
  have s2: "scoreEntity e2 q fz = fold f (observations e2) (50 + t)"
    using assms(2,3) by (simp add: scoreEntity_def f_def t_def Let_def)
  have "scoreEntity e1 q fz = scoreEntity e2 q fz + 50"
    unfolding s1 s2 by (rule shift)
  then show ?thesis by simp
qed

theorem scoreEntity_exact_name_witness:
  "scoreEntity \<lparr>name = ''ab'', entityType = ''a'', observations = [''a'']\<rparr> ''a'' True
     \<le> scoreEntity \<lparr>name = ''A'', entityType = ''a'', observations = [''a'']\<rparr> ''a'' True
   \<and> scoreEntity \<lparr>name = ''A'', entityType = ''a'', observations = [''a'']\<rparr> ''a'' True = 155"
proof -
  let ?e1 = "\<lparr>name = ''A'', entityType = ''a'', observations = [''a'']\<rparr>"
  let ?e2 = "\<lparr>name = ''ab'', entityType = ''a'', observations = [''a'']\<rparr>"
  have h1: "toLowerCase (name ?e1) = toLowerCase ''a''"
    by code_simp
  have h2: "includes_str (toLowerCase (name ?e2)) (toLowerCase ''a'')"
    by code_simp
  have h3: "toLowerCase (name ?e2) \<noteq> toLowerCase ''a''"
    by code_simp
  have h4: "entityType ?e1 = entityType ?e2" and h5: "observations ?e1 = observations ?e2"
    by simp_all
  have v: "scoreEntity ?e2 ''a'' True = 105"
    by code_simp
  show ?thesis
    using scoreEntity_exact_name [OF h1 h2 h3 h4 h5, of True] v by simp
qed


section \<open>Parsed queries\<close>

text \<open>The equations that evaluate the parsers on a given query.\<close>

lemmas parse_eval =
  parseFieldQuery_def fieldMatchAt_def fieldPrefix_def setField_def trim_def parseQuery_def
  queryTokens_def remainingQuery_def split_spaces_def isSpace_def quote_def classify_def

lemma not_both_signs: "\<not> (startsWith t ''+'' \<and> startsWith t ''-'')"
  by (cases t) auto

lemma classify_fields:
  "required (classify t r) =
     required r @ (if startsWith t ''+'' \<and> length t > 1 then [toLowerCase (drop 1 t)] else [])"
  "excluded (classify t r) =
     excluded r @ (if startsWith t ''-'' \<and> length t > 1 then [toLowerCase (drop 1 t)] else [])"
  "optional (classify t r) =
     optional r @ (if \<not> startsWith t ''+'' \<and> \<not> startsWith t ''-'' then [toLowerCase t] else [])"
  "phrases (classify t r) = phrases r"
  using not_both_signs [of t] by (auto simp: classify_def)

lemma required_fold_classify:
  "required (fold classify ts r) =
     required r @ map (\<lambda>t. toLowerCase (drop 1 t))
                    (filter (\<lambda>t. startsWith t ''+'' \<and> length t > 1) ts)"
  by (induction ts arbitrary: r) (simp_all add: classify_fields)

lemma excluded_fold_classify:
  "excluded (fold classify ts r) =
     excluded r @ map (\<lambda>t. toLowerCase (drop 1 t))
                    (filter (\<lambda>t. startsWith t ''-'' \<and> length t > 1) ts)"
  by (induction ts arbitrary: r) (simp_all add: classify_fields)

lemma optional_fold_classify:
  "optional (fold classify ts r) =
     optional r @ map toLowerCase
                    (filter (\<lambda>t. \<not> startsWith t ''+'' \<and> \<not> startsWith t ''-'') ts)"
  by (induction ts arbitrary: r) (simp_all add: classify_fields)

lemma phrases_fold_classify: "phrases (fold classify ts r) = phrases r"
  by (induction ts arbitrary: r) (simp_all add: classify_fields)

lemma splitWs_no_space:
  "\<forall>x \<in> set cur. \<not> isSpace x \<Longrightarrow> t \<in> set (splitWs cur s) \<Longrightarrow> x \<in> set t \<Longrightarrow> \<not> isSpace x"
proof (induction cur s rule: splitWs.induct)
  case (1 cur)
  then show ?case by simp
next
  case (2 cur c cs)
  show ?case
  proof (cases "isSpace c")
    case True
    with "2.prems"(2) have "t = cur \<or> t \<in> set (splitWs [] (dropWhile isSpace cs))"
      by simp
    then show ?thesis
    proof
      assume "t = cur"
      with "2.prems"(1,3) show ?thesis by simp
    next
      assume "t \<in> set (splitWs [] (dropWhile isSpace cs))"
      with "2.IH"(1) [OF True] "2.prems"(3) show ?thesis by simp
    qed
  next
    case False
    with "2.prems"(2) have "t \<in> set (splitWs (cur @ [c]) cs)"
      by simp
    moreover have "\<forall>x \<in> set (cur @ [c]). \<not> isSpace x"
      using "2.prems"(1) False by simp
    ultimately show ?thesis
      using "2.IH"(2) [OF False] "2.prems"(3) by simp
  qed
qed

text \<open>A token is not empty and holds no white space.\<close>

lemma queryTokens_shape: "t \<in> set (queryTokens q) \<Longrightarrow> t \<noteq> [] \<and> (\<forall>x \<in> set t. \<not> isSpace x)"
  using splitWs_no_space [of "[]" t "remainingQuery q"]
  by (auto simp: queryTokens_def split_spaces_def)

lemma parseQuery_fields:
  "required (parseQuery q) =
     map (\<lambda>t. toLowerCase (drop 1 t))
       (filter (\<lambda>t. startsWith t ''+'' \<and> length t > 1) (queryTokens q))"
  "excluded (parseQuery q) =
     map (\<lambda>t. toLowerCase (drop 1 t))
       (filter (\<lambda>t. startsWith t ''-'' \<and> length t > 1) (queryTokens q))"
  "optional (parseQuery q) =
     map toLowerCase
       (filter (\<lambda>t. \<not> startsWith t ''+'' \<and> \<not> startsWith t ''-'') (queryTokens q))"
  "phrases (parseQuery q) = map (\<lambda>m. toLowerCase (snd m)) (phraseMatches q)"
  by (simp_all add: parseQuery_def required_fold_classify excluded_fold_classify
        optional_fold_classify phrases_fold_classify)

text \<open>
  C7, as stated: a token that is a bare \<open>+\<close> or a bare \<open>-\<close> goes into \<open>optional\<close>. The last
  branch of the loop takes only a token that starts with neither sign, so a bare sign is
  put nowhere.
\<close>

theorem parseQuery_bare_sign_counterexample:
  "parseQuery ''+'' = \<lparr>required = [], optional = [], excluded = [], phrases = []\<rparr>
   \<and> parseQuery ''-'' = \<lparr>required = [], optional = [], excluded = [], phrases = []\<rparr>
   \<and> optional (parseQuery ''a + - b'') = [''a'', ''b'']"
  by (simp add: parse_eval toLowerCase_def lowerChar_def)

text \<open>
  C7, amended: of the tokens of the query (the pieces between white space, quoted phrases
  removed), one that starts with \<open>+\<close> and is longer than 1 goes into \<open>required\<close>, one that
  starts with \<open>-\<close> and is longer than 1 into \<open>excluded\<close>, both without the sign, and one
  that starts with neither sign into \<open>optional\<close>, all in lower case and in their order;
  a bare \<open>+\<close> or \<open>-\<close> is dropped.
\<close>

theorem parseQuery_classifies:
  "required (parseQuery q) =
     map (\<lambda>t. toLowerCase (drop 1 t))
       (filter (\<lambda>t. startsWith t ''+'' \<and> length t > 1) (queryTokens q))
   \<and> excluded (parseQuery q) =
       map (\<lambda>t. toLowerCase (drop 1 t))
         (filter (\<lambda>t. startsWith t ''-'' \<and> length t > 1) (queryTokens q))
   \<and> optional (parseQuery q) =
       map toLowerCase
         (filter (\<lambda>t. \<not> startsWith t ''+'' \<and> \<not> startsWith t ''-'') (queryTokens q))
   \<and> phrases (parseQuery q) = map (\<lambda>m. toLowerCase (snd m)) (phraseMatches q)"
  by (simp add: parseQuery_fields)

theorem parseQuery_classifies_witness:
  "queryTokens ''+Foo -Bar baz + - +x-y'' = [''+Foo'', ''-Bar'', ''baz'', ''+'', ''-'', ''+x-y'']
   \<and> required (parseQuery ''+Foo -Bar baz + - +x-y'') = [''foo'', ''x-y'']
   \<and> excluded (parseQuery ''+Foo -Bar baz + - +x-y'') = [''bar'']
   \<and> optional (parseQuery ''+Foo -Bar baz + - +x-y'') = [''baz'']"
proof -
  have tokens: "queryTokens ''+Foo -Bar baz + - +x-y''
      = [''+Foo'', ''-Bar'', ''baz'', ''+'', ''-'', ''+x-y'']"
    by (simp add: parse_eval)
  have lower: "toLowerCase ''oo'' = ''oo''" "toLowerCase ''Foo'' = ''foo''"
    "toLowerCase ''Bar'' = ''bar''" "toLowerCase ''baz'' = ''baz''" "toLowerCase ''x-y'' = ''x-y''"
    by code_simp+
  show ?thesis
    using parseQuery_classifies [of "''+Foo -Bar baz + - +x-y''"]
    by (simp add: tokens lower)
qed

section \<open>Matching a parsed query\<close>

lemma lowerChar_idem: "lowerChar (lowerChar c) = lowerChar c"
proof -
  have "of_char (char_of (of_char c + 32 :: nat)) = (of_char c + 32 :: nat)"
    if "(of_char c :: nat) \<le> 222"
    using that by simp
  then show ?thesis
    by (auto simp: lowerChar_def Let_def)
qed

lemma toLowerCase_idem: "toLowerCase (toLowerCase s) = toLowerCase s"
  by (simp add: toLowerCase_def lowerChar_idem)

lemma parseQuery_lowerCased: "lowerCased (parseQuery q)"
  by (auto simp: lowerCased_def parseQuery_fields toLowerCase_idem)

lemma empty_parsed_matches:
  "matchesParsedQuery text \<lparr>required = [], optional = [], excluded = [], phrases = []\<rparr>"
  by (simp add: matchesParsedQuery_def)

text \<open>
  C8. \<open>matchesParsedQuery\<close> holds exactly when every required term and every phrase occurs
  in the text, no excluded term does, and, when there are optional terms but neither
  required terms nor phrases, some optional term does; so the query without any term
  matches every text. The terms of a parsed query are in lower case (\<open>parseQuery\<close> stores
  them so), and occurrence ignores the case of the text.
\<close>

theorem matchesParsedQuery_iff:
  assumes "lowerCased parsed"
  shows "(matchesParsedQuery text parsed \<longleftrightarrow>
            (\<forall>t \<in> set (required parsed). containsCI text t)
          \<and> (\<forall>t \<in> set (excluded parsed). \<not> containsCI text t)
          \<and> (\<forall>p \<in> set (phrases parsed). containsCI text p)
          \<and> (optional parsed \<noteq> [] \<and> required parsed = [] \<and> phrases parsed = []
               \<longrightarrow> (\<exists>t \<in> set (optional parsed). containsCI text t)))
         \<and> (required parsed = [] \<and> optional parsed = [] \<and> excluded parsed = []
              \<and> phrases parsed = [] \<longrightarrow> matchesParsedQuery text parsed)"
proof -
  have ci: "containsCI text t = includes_str (toLowerCase text) t"
    if "t \<in> set (required parsed @ optional parsed @ excluded parsed @ phrases parsed)" for t
    using assms that by (simp add: containsCI_def lowerCased_def)
  show ?thesis
    by (auto simp: matchesParsedQuery_def Let_def ci)
qed

theorem matchesParsedQuery_iff_witness:
  "lowerCased (parseQuery ''+Auth -deprecated'')
   \<and> matchesParsedQuery ''AuthService'' (parseQuery ''+Auth -deprecated'')
   \<and> \<not> matchesParsedQuery ''Deprecated AuthService'' (parseQuery ''+Auth -deprecated'')
   \<and> matchesParsedQuery ''anything'' (parseQuery '''')"
proof -
  have l: "toLowerCase ''Auth'' = ''auth''" "toLowerCase ''deprecated'' = ''deprecated''"
    by code_simp+
  have p: "parseQuery ''+Auth -deprecated''
      = \<lparr>required = [''auth''], optional = [], excluded = [''deprecated''], phrases = []\<rparr>"
    "parseQuery '''' = \<lparr>required = [], optional = [], excluded = [], phrases = []\<rparr>"
    by (simp_all add: parse_eval l)
  have c: "containsCI ''AuthService'' ''auth''" "\<not> containsCI ''AuthService'' ''deprecated''"
    "containsCI ''Deprecated AuthService'' ''deprecated''"
    by code_simp+
  show ?thesis
    using matchesParsedQuery_iff [OF parseQuery_lowerCased, of "''AuthService''" "''+Auth -deprecated''"]
      matchesParsedQuery_iff [OF parseQuery_lowerCased, of "''Deprecated AuthService''" "''+Auth -deprecated''"]
      matchesParsedQuery_iff [OF parseQuery_lowerCased, of "''anything''" "''''"]
      parseQuery_lowerCased [of "''+Auth -deprecated''"]
    by (simp add: p c)
qed

section \<open>Searching with excluded terms only\<close>

text \<open>
  C10. When the query has no field scope and its free text parses to excluded terms only
  (no required term, no optional term, no phrase), \<open>searchNodes\<close> returns the empty result
  on every graph, whatever the options: the test for usable content does not count
  excluded terms.
\<close>

theorem searchNodes_only_excluded:
  assumes "fqName (parseFieldQuery q) = None"
    and "fqType (parseFieldQuery q) = None"
    and "fqObs (parseFieldQuery q) = None"
    and "fqAll (parseFieldQuery q) = Some a"
    and "required a = []" and "optional a = []" and "phrases a = []"
  shows "searchNodes g q options = \<lparr>entities = [], relations = [], scores = []\<rparr>"
  using assms by (simp add: searchNodes_def emptyResult_def Let_def)

theorem searchNodes_only_excluded_witness:
  "parseFieldQuery ''-foo'' =
     \<lparr>fqName = None, fqType = None, fqObs = None,
      fqAll = Some \<lparr>required = [], optional = [], excluded = [''foo''], phrases = []\<rparr>\<rparr>
   \<and> matchesParsedQuery (allText (entityNamed ''A''))
        \<lparr>required = [], optional = [], excluded = [''foo''], phrases = []\<rparr>
   \<and> searchNodes chainGraph ''-foo'' \<lparr>includeNeighbors = True, fuzzy = True, limit = None\<rparr>
       = \<lparr>entities = [], relations = [], scores = []\<rparr>"
proof -
  have p: "parseFieldQuery ''-foo'' =
     \<lparr>fqName = None, fqType = None, fqObs = None,
      fqAll = Some \<lparr>required = [], optional = [], excluded = [''foo''], phrases = []\<rparr>\<rparr>"
    by (simp add: parse_eval toLowerCase_def lowerChar_def)
  have m: "matchesParsedQuery (allText (entityNamed ''A''))
        \<lparr>required = [], optional = [], excluded = [''foo''], phrases = []\<rparr>"
    by code_simp
  show ?thesis
    using searchNodes_only_excluded [of "''-foo''"
        "\<lparr>required = [], optional = [], excluded = [''foo''], phrases = []\<rparr>" chainGraph
        "\<lparr>includeNeighbors = True, fuzzy = True, limit = None\<rparr>"] m
    by (simp add: p)
qed


section \<open>Shortest paths\<close>

lemma adjacency_mem:
  "(v, r) \<in> set (case adjacency g u of None \<Rightarrow> [] | Some l \<Rightarrow> l) \<longleftrightarrow>
     u \<in> set (entityNames g) \<and> r \<in> set (relations g)
     \<and> ((rel_from r = u \<and> rel_to r = v) \<or> (rel_to r = u \<and> rel_from r = v))"
  by (auto simp: adjacency_def adjacencyOf_def split: if_splits)

lemma pushes_mem:
  "c \<in> set (pushes g vis q) \<longleftrightarrow>
     (\<exists>v r. (v, r) \<in> set (case adjacency g (qname q) of None \<Rightarrow> [] | Some l \<Rightarrow> l)
        \<and> v \<notin> set vis
        \<and> c = \<lparr>qname = v, qpath = qpath q @ [v], qrelations = qrelations q @ [r]\<rparr>)"
  by (auto simp: pushes_def image_iff)

lemma walk_snoc: "walk rels p \<Longrightarrow> linked rels (last p) v \<Longrightarrow> walk rels (p @ [v])"
  by (induction rels p rule: walk.induct) auto

lemma walk_linked: "walk rels (xs @ x # y # ys) \<Longrightarrow> linked rels x y"
proof (induction xs)
  case Nil
  then show ?case by simp
next
  case (Cons z zs)
  then show ?case by (cases zs) auto
qed

lemma ahead_drop:
  assumes a: "ahead visited (q # rest) w"
    and w: "last w = b" "int (length w) - 1 \<le> m"
    and nb: "qname q \<noteq> b"
    and d: "int (length (qpath q)) > m \<or> qname q \<in> set visited"
  shows "ahead visited rest w"
proof -
  from a obtain q0 pre suf where q0: "q0 \<in> set (q # rest)" "w = pre @ suf" "suf \<noteq> []"
    "hd suf = qname q0" "length (qpath q0) \<le> length pre + 1" "set suf \<inter> set visited = {}"
    unfolding ahead_def by blast
  have "q0 \<noteq> q"
  proof
    assume e: "q0 = q"
    from q0(3,4,6) e have nv: "qname q \<notin> set visited"
      by (cases suf) auto
    from w(1) q0(2,3) have "last suf = b" by simp
    with nb q0(3,4) e have "2 \<le> length suf"
      by (cases suf; cases "tl suf") auto
    with q0(2,5) w(2) e have "int (length (qpath q)) \<le> m" by simp
    with d nv show False by simp
  qed
  with q0 show ?thesis unfolding ahead_def by auto
qed

lemma ahead_expand:
  assumes a: "ahead visited (q # rest) w"
    and ew: "entityWalk g w" "last w = b"
    and nb: "qname q \<noteq> b"
    and s: "\<forall>x \<in> set rest. length (qpath q) \<le> length (qpath x)"
  shows "ahead (visited @ [qname q]) (rest @ pushes g (visited @ [qname q]) q) w"
proof -
  from a obtain q0 pre suf where q0: "q0 \<in> set (q # rest)" "w = pre @ suf" "suf \<noteq> []"
    "hd suf = qname q0" "length (qpath q0) \<le> length pre + 1" "set suf \<inter> set visited = {}"
    unfolding ahead_def by blast
  let ?u = "qname q"
  let ?vis = "visited @ [?u]"
  show ?thesis
  proof (cases "?u \<in> set suf")
    case True
    then obtain s1 s2 where s12: "suf = s1 @ ?u # s2" "?u \<notin> set s2"
      using split_list_last [of ?u suf] by blast
    from ew(2) q0(2,3) have "last suf = b" by simp
    with s12(1) nb have "s2 \<noteq> []" by auto
    then obtain v s3 where s2: "s2 = v # s3" by (cases s2) auto
    have wd: "w = (pre @ s1) @ ?u # v # s3"
      using q0(2) s12(1) s2 by simp
    from ew(1) have "walk (relations g) ((pre @ s1) @ ?u # v # s3)"
      unfolding entityWalk_def wd by simp
    then have l: "linked (relations g) ?u v" by (rule walk_linked)
    from ew(1) wd have u: "?u \<in> set (entityNames g)"
      unfolding entityWalk_def by auto
    from l u obtain r where r: "(v, r) \<in> set (case adjacency g ?u of None \<Rightarrow> [] | Some l \<Rightarrow> l)"
      unfolding adjacency_mem linked_def by blast
    have nv: "v \<notin> set ?vis"
      using q0(6) s12 s2 by auto
    let ?c = "\<lparr>qname = v, qpath = qpath q @ [v], qrelations = qrelations q @ [r]\<rparr>"
    have c: "?c \<in> set (rest @ pushes g ?vis q)"
      using r nv by (auto simp: pushes_mem)
    have "length (qpath q) \<le> length (qpath q0)"
      using q0(1) s by auto
    then have len: "length (qpath ?c) \<le> length (pre @ s1 @ [?u]) + 1"
      using q0(5) by simp
    have dis: "set (v # s3) \<inter> set ?vis = {}"
      using q0(6) s12 s2 by auto
    have "w = (pre @ s1 @ [?u]) @ (v # s3)" using wd by simp
    with c len dis show ?thesis
      unfolding ahead_def
      by (intro bexI [of _ ?c] exI [of _ "pre @ s1 @ [?u]"] exI [of _ "v # s3"]) simp_all
  next
    case False
    with q0(3,4) have "q0 \<noteq> q" by (cases suf) auto
    with q0(1) have "q0 \<in> set (rest @ pushes g ?vis q)" by simp
    moreover have "set suf \<inter> set ?vis = {}" using q0(6) False by auto
    ultimately show ?thesis
      unfolding ahead_def using q0(2,3,4,5) by blast
  qed
qed

lemma itemOk_push:
  assumes "itemOk g a q"
    and "(v, r) \<in> set (case adjacency g (qname q) of None \<Rightarrow> [] | Some l \<Rightarrow> l)"
  shows "itemOk g a \<lparr>qname = v, qpath = qpath q @ [v], qrelations = qrelations q @ [r]\<rparr>"
proof -
  from assms(2) have u: "qname q \<in> set (entityNames g)" and l: "linked (relations g) (qname q) v"
    unfolding adjacency_mem linked_def by auto
  from assms(1) have p: "qpath q \<noteq> []" "hd (qpath q) = a" "last (qpath q) = qname q"
    "walk (relations g) (qpath q)" "set (butlast (qpath q)) \<subseteq> set (entityNames g)"
    "length (qrelations q) + 1 = length (qpath q)"
    unfolding itemOk_def by auto
  have "set (qpath q) = insert (last (qpath q)) (set (butlast (qpath q)))"
    using p(1) by (metis append_butlast_last_id list.simps(15) rotate1.simps(2) set_rotate1)
  with p(3,5) u have "set (qpath q) \<subseteq> set (entityNames g)" by auto
  moreover have "walk (relations g) (qpath q @ [v])"
    using p(3,4) l by (simp add: walk_snoc)
  ultimately show ?thesis
    using p by (simp add: itemOk_def)
qed

lemma bfsInv_drop:
  assumes inv: "bfsInv g a b m visited (q # rest)"
    and nb: "qname q \<noteq> b"
    and d: "int (length (qpath q)) > m \<or> qname q \<in> set visited"
  shows "bfsInv g a b m visited rest"
proof -
  from inv have i: "\<forall>x \<in> set (q # rest). itemOk g a x \<and> (int (length (qpath x)) - 1 \<le> m \<or> qpath x = [a])"
    and so: "sorted_wrt (\<lambda>x y. length (qpath x) \<le> length (qpath y)) (q # rest)"
    and bd: "\<forall>x \<in> set (q # rest). length (qpath x) \<le> length (qpath q) + 1"
    and ah: "\<forall>w. entityWalk g w \<and> hd w = a \<and> last w = b \<and> int (length w) - 1 \<le> m
             \<longrightarrow> ahead visited (q # rest) w"
    unfolding bfsInv_def by auto
  have "\<forall>x \<in> set rest. length (qpath x) \<le> length (qpath (hd rest)) + 1"
  proof (cases rest)
    case Nil
    then show ?thesis by simp
  next
    case (Cons y ys)
    with so have "length (qpath q) \<le> length (qpath y)" by simp
    with bd Cons show ?thesis by fastforce
  qed
  moreover have "ahead visited rest w"
    if "entityWalk g w \<and> hd w = a \<and> last w = b \<and> int (length w) - 1 \<le> m" for w
    using ahead_drop [of visited q rest w b m] ah that nb d by blast
  ultimately show ?thesis
    using i so unfolding bfsInv_def by simp
qed

lemma bfsInv_expand:
  assumes inv: "bfsInv g a b m visited (q # rest)"
    and nb: "qname q \<noteq> b"
    and d: "\<not> int (length (qpath q)) > m"
  shows "bfsInv g a b m (visited @ [qname q]) (rest @ pushes g (visited @ [qname q]) q)"
proof -
  let ?vis = "visited @ [qname q]"
  let ?new = "pushes g ?vis q"
  from inv have i: "\<forall>x \<in> set (q # rest). itemOk g a x \<and> (int (length (qpath x)) - 1 \<le> m \<or> qpath x = [a])"
    and so: "sorted_wrt (\<lambda>x y. length (qpath x) \<le> length (qpath y)) (q # rest)"
    and bd: "\<forall>x \<in> set (q # rest). length (qpath x) \<le> length (qpath q) + 1"
    and ah: "\<forall>w. entityWalk g w \<and> hd w = a \<and> last w = b \<and> int (length w) - 1 \<le> m
             \<longrightarrow> ahead visited (q # rest) w"
    unfolding bfsInv_def by auto
  have new: "itemOk g a c \<and> length (qpath c) = length (qpath q) + 1" if "c \<in> set ?new" for c
  proof -
    from that obtain v r where
      vr: "(v, r) \<in> set (case adjacency g (qname q) of None \<Rightarrow> [] | Some l \<Rightarrow> l)"
      "c = \<lparr>qname = v, qpath = qpath q @ [v], qrelations = qrelations q @ [r]\<rparr>"
      unfolding pushes_mem by blast
    from i have "itemOk g a q" by simp
    from itemOk_push [OF this vr(1)] vr(2) show ?thesis by simp
  qed
  have le: "\<forall>x \<in> set rest. length (qpath q) \<le> length (qpath x)"
    using so by simp
  have 1: "\<forall>x \<in> set (rest @ ?new). itemOk g a x \<and> (int (length (qpath x)) - 1 \<le> m \<or> qpath x = [a])"
    using i new d by fastforce
  have "sorted_wrt (\<lambda>x y. length (qpath x) \<le> length (qpath y)) ?new"
    by (rule sorted_wrt_mono_rel [of ?new "\<lambda>x y. True"]) (use new in auto)
  then have 2: "sorted_wrt (\<lambda>x y. length (qpath x) \<le> length (qpath y)) (rest @ ?new)"
    using so bd new by (auto simp: sorted_wrt_append)
  have 3: "\<forall>x \<in> set (rest @ ?new). length (qpath x) \<le> length (qpath (hd (rest @ ?new))) + 1"
  proof (cases rest)
    case Nil
    show ?thesis
    proof (cases ?new)
      case Nil
      with \<open>rest = []\<close> show ?thesis by simp
    next
      case (Cons c cs)
      then have "c \<in> set ?new" by simp
      with new have "length (qpath c) = length (qpath q) + 1" by blast
      with new \<open>rest = []\<close> Cons show ?thesis by auto
    qed
  next
    case (Cons y ys)
    with le have "length (qpath q) \<le> length (qpath y)" by simp
    with bd new Cons show ?thesis by fastforce
  qed
  have 4: "ahead ?vis (rest @ ?new) w"
    if "entityWalk g w \<and> hd w = a \<and> last w = b \<and> int (length w) - 1 \<le> m" for w
    using ahead_expand [of visited q rest w g b] ah that nb le by blast
  from 1 2 3 4 show ?thesis unfolding bfsInv_def by blast
qed


lemma bfs_correct:
  assumes "bfsInv g a b m visited queue" and "a \<noteq> b" and "b \<in> set (entityNames g)"
  shows "case bfs g b m visited queue of
           None \<Rightarrow> \<not> (\<exists>w. entityWalk g w \<and> hd w = a \<and> last w = b \<and> int (length w) - 1 \<le> m)
         | Some p \<Rightarrow>
             (\<exists>w. entityWalk g w \<and> hd w = a \<and> last w = b \<and> int (length w) - 1 \<le> m
                \<and> path p = map (entityMap g) w
                \<and> pathLength p = int (length w) - 1
                \<and> length (pathRelations p) + 1 = length w
                \<and> (\<forall>w'. entityWalk g w' \<and> hd w' = a \<and> last w' = b \<longrightarrow> length w \<le> length w'))"
  using assms
proof (induction g b m visited queue rule: bfs.induct)
  case (1 g b m visited)
  then have "\<not> ahead visited [] w" for w
    by (simp add: ahead_def)
  with 1 show ?case
    by (auto simp: bfsInv_def)
next
  case (2 g b m visited q rest)
  note inv = "2.prems"(1)
  show ?case
  proof (cases "qname q = b")
    case True
    from inv have ok: "itemOk g a q" and dep: "int (length (qpath q)) - 1 \<le> m \<or> qpath q = [a]"
      and so: "sorted_wrt (\<lambda>x y. length (qpath x) \<le> length (qpath y)) (q # rest)"
      and ah: "\<forall>w. entityWalk g w \<and> hd w = a \<and> last w = b \<and> int (length w) - 1 \<le> m
             \<longrightarrow> ahead visited (q # rest) w"
      unfolding bfsInv_def by auto
    from ok have p: "qpath q \<noteq> []" "hd (qpath q) = a" "last (qpath q) = qname q"
      "walk (relations g) (qpath q)" "set (butlast (qpath q)) \<subseteq> set (entityNames g)"
      "length (qrelations q) + 1 = length (qpath q)"
      unfolding itemOk_def by auto
    have "set (qpath q) = insert (last (qpath q)) (set (butlast (qpath q)))"
      using p(1) by (metis append_butlast_last_id list.simps(15) rotate1.simps(2) set_rotate1)
    with p(3,5) True "2.prems"(3) have "set (qpath q) \<subseteq> set (entityNames g)" by auto
    with p(4) have ew: "entityWalk g (qpath q)" by (simp add: entityWalk_def)
    from dep p(3) True "2.prems"(2) have within: "int (length (qpath q)) - 1 \<le> m"
      by auto
    have best: "length (qpath q) \<le> length w'"
      if w': "entityWalk g w' \<and> hd w' = a \<and> last w' = b" for w'
    proof (cases "int (length w') - 1 \<le> m")
      case True
      with ah w' have "ahead visited (q # rest) w'" by blast
      then obtain q0 pre suf where q0: "q0 \<in> set (q # rest)" "w' = pre @ suf" "suf \<noteq> []"
        "length (qpath q0) \<le> length pre + 1"
        unfolding ahead_def by blast
      from so q0(1) have "length (qpath q) \<le> length (qpath q0)" by auto
      also have "\<dots> \<le> length w'" using q0(2,3,4) by (cases suf) auto
      finally show ?thesis .
    next
      case False
      with within show ?thesis by simp
    qed
    have "bfs g b m visited (q # rest) =
        Some \<lparr>path = map (entityMap g) (qpath q), pathRelations = qrelations q,
              pathLength = int (length (qpath q)) - 1\<rparr>"
      using True by simp
    with ew p(2,3,6) True within best show ?thesis
      by (auto intro!: exI [of _ "qpath q"])
  next
    case False
    show ?thesis
    proof (cases "int (length (qpath q)) > m \<or> qname q \<in> set visited")
      case True
      from bfsInv_drop [OF inv False True] have "bfsInv g a b m visited rest" .
      moreover have "bfs g b m visited (q # rest) = bfs g b m visited rest"
        using False True by auto
      ultimately show ?thesis
        using "2.IH"(1) [OF False] "2.IH"(2) [OF False] "2.prems"(2,3) True by auto
    next
      case nd: False
      then have d: "\<not> int (length (qpath q)) > m" and nv: "qname q \<notin> set visited" by auto
      from bfsInv_expand [OF inv False d]
      have "bfsInv g a b m (visited @ [qname q]) (rest @ pushes g (visited @ [qname q]) q)" .
      moreover have "bfs g b m visited (q # rest) =
          bfs g b m (visited @ [qname q]) (rest @ pushes g (visited @ [qname q]) q)"
        using False d nv by simp
      ultimately show ?thesis
        using "2.IH"(3) [OF False d nv] "2.prems"(2,3) by simp
    qed
  qed
qed

lemma bfsInv_start: "bfsInv g a b m [] [\<lparr>qname = a, qpath = [a], qrelations = []\<rparr>]"
proof -
  have "ahead [] [\<lparr>qname = a, qpath = [a], qrelations = []\<rparr>] w"
    if "entityWalk g w" "hd w = a" for w
  proof -
    from that(1) have "w \<noteq> []" by (cases w) (auto simp: entityWalk_def)
    with that(2) show ?thesis
      unfolding ahead_def by (intro bexI [of _ "\<lparr>qname = a, qpath = [a], qrelations = []\<rparr>"]
        exI [of _ "[]"] exI [of _ w]) simp_all
  qed
  then show ?thesis
    by (simp add: bfsInv_def itemOk_def)
qed

lemma entityMap_name: "entityMap g n = Some e \<Longrightarrow> name e = n"
  by (auto simp: entityMap_def dest!: map_of_SomeD)

lemma entityMap_names:
  "set w \<subseteq> set (entityNames g) \<Longrightarrow> map (map_option name) (map (entityMap g) w) = map Some w"
proof (induction w)
  case Nil
  show ?case by simp
next
  case (Cons n w)
  then obtain e where "entityMap g n = Some e"
    using entityMap_None [of g n] by auto
  with Cons show ?case by (simp add: entityMap_name)
qed

text \<open>
  C1, as stated: two existing entities joined by an undirected path of at most \<open>maxDepth\<close>
  relations get a shortest path. The search goes on only from names that are entities: in
  the graph below, A and B are entities and two relations join them through X, which is
  no entity, and \<open>findPath\<close> returns nothing.
\<close>

theorem findPath_dangling_counterexample:
  "''A'' \<in> set (entityNames danglingGraph) \<and> ''B'' \<in> set (entityNames danglingGraph)
   \<and> walk (relations danglingGraph) [''A'', ''X'', ''B'']
   \<and> findPath danglingGraph ''A'' ''B'' 10 = None"
  by (simp add: danglingGraph_def entityNames_def entityNamed_def relationBetween_def
        linked_def findPath_def entityMap_def pushes_def adjacency_def adjacencyOf_def)

text \<open>
  C1, amended: \<open>findPath\<close> returns nothing when an end point is no entity; for an entity A,
  the path from A to A is the one entity A with no relation and length 0; for two different
  entities joined by an undirected walk of at most \<open>maxDepth\<close> relations through entities
  only, it returns a path along such a walk whose length is the least number of relations
  of any walk through entities between them; and when no such walk of at most \<open>maxDepth\<close>
  relations exists, it returns nothing.
\<close>

theorem findPath_shortest:
  "(a \<notin> set (entityNames g) \<or> b \<notin> set (entityNames g) \<longrightarrow> findPath g a b m = None)
   \<and> (a \<in> set (entityNames g) \<longrightarrow>
        (\<exists>e. name e = a \<and>
           findPath g a a m = Some \<lparr>path = [Some e], pathRelations = [], pathLength = 0\<rparr>))
   \<and> (a \<in> set (entityNames g) \<and> b \<in> set (entityNames g) \<and> a \<noteq> b
        \<and> (\<exists>w. entityWalk g w \<and> hd w = a \<and> last w = b \<and> int (length w) - 1 \<le> m) \<longrightarrow>
        (\<exists>p w. findPath g a b m = Some p
           \<and> entityWalk g w \<and> hd w = a \<and> last w = b
           \<and> map (map_option name) (path p) = map Some w
           \<and> pathLength p = int (length w) - 1
           \<and> length (pathRelations p) + 1 = length w
           \<and> (\<forall>w'. entityWalk g w' \<and> hd w' = a \<and> last w' = b \<longrightarrow> length w \<le> length w')))
   \<and> (a \<noteq> b
        \<and> \<not> (\<exists>w. entityWalk g w \<and> hd w = a \<and> last w = b \<and> int (length w) - 1 \<le> m) \<longrightarrow>
        findPath g a b m = None)"
proof (intro conjI impI)
  assume "a \<notin> set (entityNames g) \<or> b \<notin> set (entityNames g)"
  then show "findPath g a b m = None"
    by (auto simp: findPath_def entityMap_None)
next
  assume "a \<in> set (entityNames g)"
  then obtain e where e: "entityMap g a = Some e"
    using entityMap_None [of g a] by auto
  then have "name e = a" by (rule entityMap_name)
  with e show "\<exists>e. name e = a \<and>
      findPath g a a m = Some \<lparr>path = [Some e], pathRelations = [], pathLength = 0\<rparr>"
    by (simp add: findPath_def)
next
  assume h: "a \<in> set (entityNames g) \<and> b \<in> set (entityNames g) \<and> a \<noteq> b
        \<and> (\<exists>w. entityWalk g w \<and> hd w = a \<and> last w = b \<and> int (length w) - 1 \<le> m)"
  then have f: "findPath g a b m = bfs g b m [] [\<lparr>qname = a, qpath = [a], qrelations = []\<rparr>]"
    by (simp add: findPath_def entityMap_None)
  from h have ab: "a \<noteq> b" "b \<in> set (entityNames g)" by auto
  from bfs_correct [OF bfsInv_start ab, of m] h obtain p w where
    pw: "bfs g b m [] [\<lparr>qname = a, qpath = [a], qrelations = []\<rparr>] = Some p"
      "entityWalk g w" "hd w = a" "last w = b" "path p = map (entityMap g) w"
      "pathLength p = int (length w) - 1" "length (pathRelations p) + 1 = length w"
      "\<forall>w'. entityWalk g w' \<and> hd w' = a \<and> last w' = b \<longrightarrow> length w \<le> length w'"
    by (cases "bfs g b m [] [\<lparr>qname = a, qpath = [a], qrelations = []\<rparr>]") auto
  from pw(2) have "set w \<subseteq> set (entityNames g)" by (simp add: entityWalk_def)
  then have "map (map_option name) (path p) = map Some w"
    unfolding pw(5) by (rule entityMap_names)
  moreover from f pw(1) have "findPath g a b m = Some p" by simp
  ultimately show "\<exists>p w. findPath g a b m = Some p
           \<and> entityWalk g w \<and> hd w = a \<and> last w = b
           \<and> map (map_option name) (path p) = map Some w
           \<and> pathLength p = int (length w) - 1
           \<and> length (pathRelations p) + 1 = length w
           \<and> (\<forall>w'. entityWalk g w' \<and> hd w' = a \<and> last w' = b \<longrightarrow> length w \<le> length w')"
    using pw(2,3,4,6,7,8) by (intro exI [of _ p] exI [of _ w]) simp
next
  assume h: "a \<noteq> b
        \<and> \<not> (\<exists>w. entityWalk g w \<and> hd w = a \<and> last w = b \<and> int (length w) - 1 \<le> m)"
  show "findPath g a b m = None"
  proof (cases "a \<in> set (entityNames g) \<and> b \<in> set (entityNames g)")
    case False
    then show ?thesis by (auto simp: findPath_def entityMap_None)
  next
    case True
    with h have f: "findPath g a b m = bfs g b m [] [\<lparr>qname = a, qpath = [a], qrelations = []\<rparr>]"
      by (simp add: findPath_def entityMap_None)
    from h True have ab: "a \<noteq> b" "b \<in> set (entityNames g)" by auto
    from bfs_correct [OF bfsInv_start ab, of m] h
    show ?thesis
      unfolding f by (cases "bfs g b m [] [\<lparr>qname = a, qpath = [a], qrelations = []\<rparr>]") auto
  qed
qed

theorem findPath_shortest_witness:
  "findPath chainGraph ''A'' ''D'' 10 =
     Some \<lparr>path = [Some (entityNamed ''A''), Some (entityNamed ''B''), Some (entityNamed ''C''),
                   Some (entityNamed ''D'')],
           pathRelations = [relationBetween ''A'' ''B'', relationBetween ''B'' ''C'',
                            relationBetween ''C'' ''D''],
           pathLength = 3\<rparr>
   \<and> \<not> (\<exists>w. entityWalk chainGraph w \<and> hd w = ''A'' \<and> last w = ''D'' \<and> length w < 4)
   \<and> findPath chainGraph ''A'' ''D'' 2 = None
   \<and> findPath chainGraph ''A'' ''Z'' 10 = None
   \<and> \<not> (\<exists>w. entityWalk chainGraph w \<and> hd w = ''A'' \<and> last w = ''Z'' \<and> int (length w) - 1 \<le> 10)
   \<and> findPath chainGraph ''A'' ''A'' 10 =
       Some \<lparr>path = [Some (entityNamed ''A'')], pathRelations = [], pathLength = 0\<rparr>
   \<and> findPath chainGraph ''A'' ''Q'' 10 = None"
proof -
  note ev = chainGraph_def entityNames_def entityNamed_def relationBetween_def
    findPath_def entityMap_def pushes_def adjacency_def adjacencyOf_def
  have names: "entityNames chainGraph = [''A'', ''B'', ''C'', ''D'', ''Z'']"
    by (simp add: ev)
  have w: "entityWalk chainGraph [''A'', ''B'', ''C'', ''D'']"
    by (simp add: entityWalk_def linked_def ev)
  have d10: "findPath chainGraph ''A'' ''D'' 10 =
     Some \<lparr>path = [Some (entityNamed ''A''), Some (entityNamed ''B''), Some (entityNamed ''C''),
                   Some (entityNamed ''D'')],
           pathRelations = [relationBetween ''A'' ''B'', relationBetween ''B'' ''C'',
                            relationBetween ''C'' ''D''],
           pathLength = 3\<rparr>"
    by (simp add: ev)
  have d2: "findPath chainGraph ''A'' ''D'' 2 = None"
    by (simp add: ev)
  have z: "findPath chainGraph ''A'' ''Z'' 10 = None"
    by (simp add: ev)
  have aa: "findPath chainGraph ''A'' ''A'' 10 =
       Some \<lparr>path = [Some (entityNamed ''A'')], pathRelations = [], pathLength = 0\<rparr>"
    by (simp add: ev)
  have q: "findPath chainGraph ''A'' ''Q'' 10 = None"
    using findPath_shortest [of "''A''" chainGraph "''Q''" 10] by (simp add: names)
  have short: "\<not> (\<exists>w. entityWalk chainGraph w \<and> hd w = ''A'' \<and> last w = ''D'' \<and> length w < 4)"
  proof
    assume "\<exists>w. entityWalk chainGraph w \<and> hd w = ''A'' \<and> last w = ''D'' \<and> length w < 4"
    then obtain w' where w': "entityWalk chainGraph w'" "hd w' = ''A''" "last w' = ''D''"
      "length w' < 4" by blast
    have ex: "\<exists>w. entityWalk chainGraph w \<and> hd w = ''A'' \<and> last w = ''D''
        \<and> int (length w) - 1 \<le> 10"
      using w by (intro exI [of _ "[''A'', ''B'', ''C'', ''D'']"]) simp
    have mem: "''A'' \<in> set (entityNames chainGraph) \<and> ''D'' \<in> set (entityNames chainGraph)
        \<and> ''A'' \<noteq> ''D''"
      by (simp add: names)
    from mem ex have ante: "''A'' \<in> set (entityNames chainGraph)
        \<and> ''D'' \<in> set (entityNames chainGraph) \<and> ''A'' \<noteq> ''D''
        \<and> (\<exists>w. entityWalk chainGraph w \<and> hd w = ''A'' \<and> last w = ''D''
              \<and> int (length w) - 1 \<le> 10)"
      by (intro conjI) simp_all
    note fs = findPath_shortest [of "''A''" chainGraph "''D''" 10]
    from mp [OF conjunct1 [OF conjunct2 [OF conjunct2 [OF fs]]] ante]
    obtain p where "\<exists>w. findPath chainGraph ''A'' ''D'' 10 = Some p
           \<and> entityWalk chainGraph w \<and> hd w = ''A'' \<and> last w = ''D''
           \<and> map (map_option name) (path p) = map Some w
           \<and> pathLength p = int (length w) - 1
           \<and> length (pathRelations p) + 1 = length w
           \<and> (\<forall>w'. entityWalk chainGraph w' \<and> hd w' = ''A'' \<and> last w' = ''D''
                 \<longrightarrow> length w \<le> length w')" ..
    then obtain w0 where b: "findPath chainGraph ''A'' ''D'' 10 = Some p
           \<and> entityWalk chainGraph w0 \<and> hd w0 = ''A'' \<and> last w0 = ''D''
           \<and> map (map_option name) (path p) = map Some w0
           \<and> pathLength p = int (length w0) - 1
           \<and> length (pathRelations p) + 1 = length w0
           \<and> (\<forall>w'. entityWalk chainGraph w' \<and> hd w' = ''A'' \<and> last w' = ''D''
                 \<longrightarrow> length w0 \<le> length w')" ..
    from b d10 have "length w0 = 4" by auto
    moreover from b w' have "length w0 \<le> length w'" by simp
    ultimately show False using w'(4) by simp
  qed
  have noz: "\<not> (\<exists>w. entityWalk chainGraph w \<and> hd w = ''A'' \<and> last w = ''Z''
      \<and> int (length w) - 1 \<le> 10)"
    using findPath_shortest [of "''A''" chainGraph "''Z''" 10] z names by auto
  from d10 short d2 z noz aa q show ?thesis by blast
qed


section \<open>Reading back what was written\<close>

lemma special_chars:
  "quote \<noteq> backslash" "backslash \<noteq> quote" "(of_char quote :: nat) = 34"
  "(of_char backslash :: nat) = 92" "(of_char lineFeed :: nat) = 10"
  by (simp_all add: quote_def backslash_def lineFeed_def)

lemma control_chars:
  "char_of (8 :: nat) = CHR 0x08" "char_of (9 :: nat) = CHR 0x09" "char_of (10 :: nat) = CHR 0x0A"
  "char_of (12 :: nat) = CHR 0x0C" "char_of (13 :: nat) = CHR 0x0D"
  by code_simp+

lemma char_eq_of_nat: "(of_char c :: nat) = n \<Longrightarrow> c = char_of n"
  by auto

lemma unhex_hexDigit: "d < 16 \<Longrightarrow> unhex (hexDigit d) = Some d"
  by (simp add: unhex_def hexDigit_def Let_def)

lemma unhex_zero: "unhex (CHR ''0'') = Some 0"
  by (simp add: unhex_def)

lemma parseChars_escapeChar: "parseChars acc (escapeChar c @ t) = parseChars (acc @ [c]) t"
proof -
  let ?n = "of_char c :: nat"
  consider (q) "c = quote" | (b) "c = backslash"
    | (c8) "?n = 8" | (c9) "?n = 9" | (c10) "?n = 10" | (c12) "?n = 12" | (c13) "?n = 13"
    | (u) "c \<noteq> quote" "c \<noteq> backslash" "?n < 32" "?n \<notin> {8, 9, 10, 12, 13}"
    | (p) "c \<noteq> quote" "c \<noteq> backslash" "32 \<le> ?n"
    by force
  then show ?thesis
  proof cases
    case q
    then show ?thesis
      by (simp add: escapeChar_def special_chars unescape_def quote_def backslash_def)
  next
    case b
    then show ?thesis
      by (simp add: escapeChar_def special_chars unescape_def quote_def backslash_def)
  next
    case c8
    then have "c = CHR 0x08" using char_eq_of_nat [of c 8] by (simp add: control_chars)
    then show ?thesis
      by (simp add: escapeChar_def unescape_def quote_def backslash_def)
  next
    case c9
    then have "c = CHR 0x09" using char_eq_of_nat [of c 9] by (simp add: control_chars)
    then show ?thesis
      by (simp add: escapeChar_def unescape_def quote_def backslash_def)
  next
    case c10
    then have "c = CHR 0x0A" using char_eq_of_nat [of c 10] by (simp add: control_chars)
    then show ?thesis
      by (simp add: escapeChar_def unescape_def quote_def backslash_def)
  next
    case c12
    then have "c = CHR 0x0C" using char_eq_of_nat [of c 12] by (simp add: control_chars)
    then show ?thesis
      by (simp add: escapeChar_def unescape_def quote_def backslash_def)
  next
    case c13
    then have "c = CHR 0x0D" using char_eq_of_nat [of c 13] by (simp add: control_chars)
    then show ?thesis
      by (simp add: escapeChar_def unescape_def quote_def backslash_def)
  next
    case u
    have e: "escapeChar c =
        [backslash, CHR ''u'', CHR ''0'', CHR ''0'', hexDigit (?n div 16), hexDigit (?n mod 16)]"
      using u by (auto simp: escapeChar_def Let_def)
    have h: "unhex (hexDigit (?n div 16)) = Some (?n div 16)"
      "unhex (hexDigit (?n mod 16)) = Some (?n mod 16)"
      using u(3) by (simp_all add: unhex_hexDigit)
    have "char_of (16 * (?n div 16) + ?n mod 16) = c"
      by simp
    then show ?thesis
      by (simp add: e h unhex_zero special_chars)
  next
    case p
    then have "escapeChar c = [c]"
      by (auto simp: escapeChar_def Let_def special_chars)
    with p show ?thesis by simp
  qed
qed

lemma parseChars_quoted:
  "parseChars acc (concat (map escapeChar s) @ quote # rest) = Some (acc @ s, rest)"
  by (induction s arbitrary: acc) (simp_all add: parseChars_escapeChar)

lemma stringify_head:
  "\<exists>c t. JSON_stringify v = c # t \<and> (c = quote \<or> c = CHR ''['' \<or> c = CHR ''{'')"
  by (cases v) (simp_all add: quoteString_def)

lemma head_chars:
  "quote \<noteq> CHR '']''" "quote \<noteq> CHR ''}''" "quote \<noteq> CHR ''[''" "quote \<noteq> CHR ''{''"
  "CHR '']'' \<noteq> quote" "CHR ''}'' \<noteq> quote" "CHR ''['' \<noteq> quote" "CHR ''{'' \<noteq> quote"
  by (simp_all add: quote_def)

lemma parseElems_written:
  assumes "\<And>v n rest. v \<in> set vs \<Longrightarrow> cost v \<le> n
             \<Longrightarrow> parseValue n (JSON_stringify v @ rest) = Some (v, rest)"
    and "vs \<noteq> []" and "sum_list (map (\<lambda>v. 1 + cost v) vs) \<le> n"
  shows "parseElems n (join '','' (map JSON_stringify vs) @ '']'' @ rest) = Some (vs, rest)"
  using assms
proof (induction vs arbitrary: n rule: induct_list012)
  case 1
  then show ?case by simp
next
  case (2 v)
  from "2.prems"(3) obtain k where k: "n = Suc k" "cost v \<le> k"
    by (cases n) auto
  from "2.prems"(1) [of v k "'']'' @ rest"] k
  have "parseValue k (JSON_stringify v @ '']'' @ rest) = Some (v, '']'' @ rest)" by simp
  then show ?case by (simp add: k)
next
  case (3 v w ws)
  from "3.prems"(3) obtain k where k: "n = Suc k" "cost v \<le> k"
    "sum_list (map (\<lambda>v. 1 + cost v) (w # ws)) \<le> k"
    by (cases n) auto
  let ?tail = "join '','' (map JSON_stringify (w # ws)) @ '']'' @ rest"
  have v: "parseValue k (JSON_stringify v @ '','' @ ?tail) = Some (v, '','' @ ?tail)"
    using "3.prems"(1) [of v k "'','' @ ?tail"] k by simp
  have "parseElems k ?tail = Some (w # ws, rest)"
    using "3.IH"(2) [of k] "3.prems"(1) k(3) by simp
  with v show ?case by (simp add: k)
qed

lemma parseMembers_written:
  assumes "\<And>m n rest. m \<in> set ms \<Longrightarrow> cost (snd m) \<le> n
             \<Longrightarrow> parseValue n (JSON_stringify (snd m) @ rest) = Some (snd m, rest)"
    and "ms \<noteq> []" and "sum_list (map (\<lambda>m. 1 + cost (snd m)) ms) \<le> n"
  shows "parseMembers n
           (join '','' (map (\<lambda>m. quoteString (fst m) @ '':'' @ JSON_stringify (snd m)) ms)
            @ ''}'' @ rest) = Some (ms, rest)"
  using assms
proof (induction ms arbitrary: n rule: induct_list012)
  case 1
  then show ?case by simp
next
  case (2 m)
  from "2.prems"(3) obtain k where k: "n = Suc k" "cost (snd m) \<le> k"
    by (cases n) auto
  from "2.prems"(1) [of m k "''}'' @ rest"] k
  have "parseValue k (JSON_stringify (snd m) @ ''}'' @ rest) = Some (snd m, ''}'' @ rest)"
    by simp
  then show ?case
    by (simp add: k quoteString_def parseChars_quoted)
next
  case (3 m w ws)
  from "3.prems"(3) obtain k where k: "n = Suc k" "cost (snd m) \<le> k"
    "sum_list (map (\<lambda>m. 1 + cost (snd m)) (w # ws)) \<le> k"
    by (cases n) auto
  let ?tail = "join '','' (map (\<lambda>m. quoteString (fst m) @ '':'' @ JSON_stringify (snd m)) (w # ws))
                 @ ''}'' @ rest"
  have v: "parseValue k (JSON_stringify (snd m) @ '','' @ ?tail) = Some (snd m, '','' @ ?tail)"
    using "3.prems"(1) [of m k "'','' @ ?tail"] k by simp
  have "parseMembers k ?tail = Some (w # ws, rest)"
    using "3.IH"(2) [of k] "3.prems"(1) k(3) by simp
  with v show ?case
    by (simp add: k quoteString_def parseChars_quoted)
qed

lemma parseValue_written:
  "cost v \<le> n \<Longrightarrow> parseValue n (JSON_stringify v @ rest) = Some (v, rest)"
proof (induction v arbitrary: n rest)
  case (JString s)
  then obtain k where "n = Suc k" by (cases n) auto
  then show ?case
    by (simp add: quoteString_def parseChars_quoted)
next
  case (JArray vs)
  from JArray.prems obtain k where k: "n = Suc k" "sum_list (map (\<lambda>v. 1 + cost v) vs) \<le> k"
    by (cases n) auto
  show ?case
  proof (cases vs)
    case Nil
    then show ?thesis by (simp add: k quote_def)
  next
    case (Cons v ws)
    obtain c t where ct: "JSON_stringify v = c # t" "c = quote \<or> c = CHR ''['' \<or> c = CHR ''{''"
      using stringify_head [of v] by blast
    let ?s = "join '','' (map JSON_stringify vs) @ '']'' @ rest"
    have e: "parseElems k ?s = Some (vs, rest)"
      using parseElems_written [of vs k rest] JArray.IH k(2) Cons by simp
    have "\<exists>t'. ?s = c # t'"
      using Cons ct(1) by (cases ws) simp_all
    then obtain t' where s: "?s = c # t'" ..
    have "c \<noteq> CHR '']''" using ct(2) head_chars by auto
    with e s have "parseValue (Suc k) (CHR ''['' # ?s) = Some (JArray vs, rest)"
      by (simp add: head_chars)
    then show ?thesis by (simp add: k)
  qed
next
  case (JObject ms)
  from JObject.prems obtain k where k: "n = Suc k"
    "sum_list (map (\<lambda>m. 1 + cost (snd m)) ms) \<le> k"
    by (cases n) auto
  show ?case
  proof (cases ms)
    case Nil
    then show ?thesis by (simp add: k quote_def)
  next
    case (Cons m ws)
    let ?s = "join '','' (map (\<lambda>m. quoteString (fst m) @ '':'' @ JSON_stringify (snd m)) ms)
                @ ''}'' @ rest"
    have ih: "parseValue n' (JSON_stringify (snd x) @ r) = Some (snd x, r)"
      if "x \<in> set ms" "cost (snd x) \<le> n'" for x n' r
      using JObject.IH [of x "snd x" n' r] that by (cases x) auto
    have e: "parseMembers k ?s = Some (ms, rest)"
      using parseMembers_written [of ms k rest] ih k(2) Cons by simp
    have "\<exists>t'. ?s = quote # t'"
      using Cons by (cases ws) (simp_all add: quoteString_def)
    then obtain t' where s: "?s = quote # t'" ..
    with e have "parseValue (Suc k) (CHR ''{'' # ?s) = Some (JObject ms, rest)"
      by (simp add: head_chars)
    then show ?thesis by (simp add: k)
  qed
qed

lemma length_join_costs:
  assumes "\<And>x. x \<in> set xs \<Longrightarrow> c x \<le> length (f x)" and "sep \<noteq> []"
  shows "sum_list (map (\<lambda>x. 1 + c x) xs) \<le> length (join sep (map f xs)) + 1"
  using assms(1)
proof (induction xs rule: induct_list012)
  case 1
  show ?case by simp
next
  case (2 x)
  from "2.prems" [of x] show ?case by simp
next
  case (3 x y zs)
  from "3.prems" [of x] have "c x \<le> length (f x)" by simp
  moreover have "sum_list (map (\<lambda>x. 1 + c x) (y # zs)) \<le> length (join sep (map f (y # zs))) + 1"
    using "3.IH"(2) "3.prems" by simp
  moreover have "1 \<le> length sep" using assms(2) by (cases sep) auto
  ultimately show ?case by simp
qed

lemma cost_le_length: "cost v \<le> length (JSON_stringify v)"
proof (induction v)
  case (JString s)
  show ?case by (simp add: quoteString_def)
next
  case (JArray vs)
  then show ?case
    using length_join_costs [of vs cost JSON_stringify "'',''"] by simp
next
  case (JObject ms)
  have "cost (snd x) \<le> length (quoteString (fst x) @ '':'' @ JSON_stringify (snd x))"
    if "x \<in> set ms" for x
    using JObject [of x "snd x"] that by (cases x) auto
  then show ?case
    using length_join_costs [of ms "\<lambda>m. cost (snd m)"
        "\<lambda>m. quoteString (fst m) @ '':'' @ JSON_stringify (snd m)" "'',''"]
    by simp
qed

lemma JSON_parse_stringify: "JSON_parse (JSON_stringify v) = Some v"
proof -
  have "cost v \<le> Suc (length (JSON_stringify v))"
    using cost_le_length [of v] by simp
  from parseValue_written [OF this, of "[]"] show ?thesis
    by (simp add: JSON_parse_def)
qed

lemma hexDigit_no_lineFeed: "d < 16 \<Longrightarrow> hexDigit d \<noteq> lineFeed"
proof
  assume d: "d < 16" and "hexDigit d = lineFeed"
  then have "(of_char (hexDigit d) :: nat) = 10"
    by (simp add: special_chars)
  with d show False
    by (simp add: hexDigit_def split: if_splits)
qed

lemma escapeChar_no_lineFeed: "lineFeed \<notin> set (escapeChar c)"
proof -
  have "hexDigit (of_char c div 16) \<noteq> lineFeed" "hexDigit (of_char c mod 16) \<noteq> lineFeed"
    if "(of_char c :: nat) < 32"
    using that by (simp_all add: hexDigit_no_lineFeed)
  moreover have "c \<noteq> lineFeed" if "(of_char c :: nat) \<noteq> 10"
    using that by (auto simp: special_chars)
  ultimately show ?thesis
    by (auto simp: escapeChar_def Let_def lineFeed_def quote_def backslash_def)
qed

lemma quoteString_no_lineFeed: "lineFeed \<notin> set (quoteString s)"
  using escapeChar_no_lineFeed by (auto simp: quoteString_def lineFeed_def quote_def)

lemma join_free: "c \<notin> set sep \<Longrightarrow> \<forall>x \<in> set xs. c \<notin> set x \<Longrightarrow> c \<notin> set (join sep xs)"
  by (induction xs rule: induct_list012) auto

lemma stringify_no_lineFeed: "lineFeed \<notin> set (JSON_stringify v)"
proof (induction v)
  case (JString s)
  show ?case by (simp add: quoteString_no_lineFeed)
next
  case (JArray vs)
  have "lineFeed \<notin> set (join '','' (map JSON_stringify vs))"
    using JArray by (intro join_free) (auto simp: lineFeed_def)
  then show ?case by (simp add: lineFeed_def)
next
  case (JObject ms)
  have m: "lineFeed \<notin> set (quoteString (fst x) @ '':'' @ JSON_stringify (snd x))"
    if "x \<in> set ms" for x
  proof -
    have "lineFeed \<notin> set (JSON_stringify (snd x))"
      using JObject [of x "snd x"] that by (cases x) auto
    moreover have "lineFeed \<noteq> CHR '':''" by (simp add: lineFeed_def)
    ultimately show ?thesis
      using quoteString_no_lineFeed [of "fst x"] by simp
  qed
  have "lineFeed \<notin> set (join '','' (map (\<lambda>m. quoteString (fst m) @ '':'' @ JSON_stringify (snd m)) ms))"
  proof (rule join_free)
    show "lineFeed \<notin> set '',''" by (simp add: lineFeed_def)
    show "\<forall>x \<in> set (map (\<lambda>m. quoteString (fst m) @ '':'' @ JSON_stringify (snd m)) ms).
            lineFeed \<notin> set x"
      using m by auto
  qed
  then show ?case by (simp add: lineFeed_def)
qed

lemma splitOn_line: "sep \<notin> set l \<Longrightarrow> splitOn sep l = [l]"
  by (induction l) auto

lemma splitOn_first: "sep \<notin> set l \<Longrightarrow> splitOn sep (l @ sep # t) = l # splitOn sep t"
  by (induction l) auto

lemma splitOn_join:
  "ls \<noteq> [] \<Longrightarrow> \<forall>l \<in> set ls. sep \<notin> set l \<Longrightarrow> splitOn sep (join [sep] ls) = ls"
  by (induction ls rule: induct_list012) (simp_all add: splitOn_line splitOn_first)

lemma trim_not_blank: "\<not> isSpace c \<Longrightarrow> trim (c # t) \<noteq> []"
proof
  assume c: "\<not> isSpace c" and "trim (c # t) = []"
  then have "dropWhile isSpace (rev (c # t)) = []"
    by (simp add: trim_def)
  then have "\<forall>x \<in> set (rev (c # t)). isSpace x"
    by (simp only: dropWhile_eq_Nil_conv)
  with c show False by simp
qed

lemma object_not_blank: "trim (JSON_stringify (JObject ms)) \<noteq> []"
  by (simp add: trim_not_blank isSpace_def)

lemma stringsOf_strings: "stringsOf (map JString ss) = Some ss"
  by (induction ss) simp_all

lemma loadLine_entity:
  "loadLine (JSON_stringify (entityJson e)) g = Inr (g\<lparr>entities := entities g @ [e]\<rparr>)"
  by (simp add: loadLine_def JSON_parse_stringify)
     (simp add: entityJson_def property_def asEntity_def stringOf_def stringsOf_strings)

lemma loadLine_relation:
  "loadLine (JSON_stringify (relationJson r)) g = Inr (g\<lparr>relations := relations g @ [r]\<rparr>)"
  by (simp add: loadLine_def JSON_parse_stringify)
     (simp add: relationJson_def property_def asRelation_def stringOf_def)

lemma loadLines_entities:
  "loadLines (map (\<lambda>e. JSON_stringify (entityJson e)) es @ ls) g
     = loadLines ls (g\<lparr>entities := entities g @ es\<rparr>)"
  by (induction es arbitrary: g) (simp_all add: loadLine_entity)

lemma loadLines_relations:
  "loadLines (map (\<lambda>r. JSON_stringify (relationJson r)) rs) g
     = Inr (g\<lparr>relations := relations g @ rs\<rparr>)"
  by (induction rs arbitrary: g) (simp_all add: loadLine_relation)

lemma load_save: "loadGraph (Some (saveGraph g)) = Inr (g :: KnowledgeGraph)"
proof -
  let ?ls = "map (\<lambda>e. JSON_stringify (entityJson e)) (entities g) @
             map (\<lambda>r. JSON_stringify (relationJson r)) (relations g)"
  have keep: "filter (\<lambda>line. trim line \<noteq> []) ?ls = ?ls"
    by (auto simp: filter_id_conv entityJson_def relationJson_def object_not_blank
             simp del: JSON_stringify.simps)
  have lines: "filter (\<lambda>line. trim line \<noteq> []) (splitOn lineFeed (join [lineFeed] ?ls)) = ?ls"
  proof (cases "?ls = []")
    case True
    then show ?thesis by (simp add: trim_def)
  next
    case False
    moreover have "\<forall>l \<in> set ?ls. lineFeed \<notin> set l"
      by (auto simp: stringify_no_lineFeed)
    ultimately have "splitOn lineFeed (join [lineFeed] ?ls) = ?ls"
      by (rule splitOn_join)
    with keep show ?thesis by simp
  qed
  have "loadLines ?ls \<lparr>entities = [], relations = []\<rparr>
      = Inr \<lparr>entities = entities g, relations = relations g\<rparr>"
    by (simp add: loadLines_entities loadLines_relations)
  with lines show ?thesis
    by (simp add: loadGraph_def saveGraph_def)
qed

text \<open>
  C9. For every graph, loading what \<open>saveGraph\<close> writes gives the graph back, with its
  entities and its relations in their order, and saving that again writes the same text.
\<close>

theorem save_load_save:
  "loadGraph (Some (saveGraph g)) = Inr g
   \<and> (\<exists>g'. loadGraph (Some (saveGraph g)) = Inr g'
          \<and> saveGraph g' = saveGraph g
          \<and> entities g' = entities g \<and> relations g' = relations g)"
  by (simp add: load_save)

theorem save_load_save_witness:
  "saveGraph emptyGraph = []
   \<and> loadGraph (Some (saveGraph emptyGraph)) = Inr emptyGraph
   \<and> loadGraph (Some (saveGraph chainGraph)) = Inr chainGraph"
  using save_load_save [of emptyGraph] save_load_save [of chainGraph]
  by (simp add: saveGraph_def emptyGraph_def)


end
